theory Spec2Isabelle
  imports Main "HOL-Library.Word" "HOL-Library.Char_ord" "HOL-Library.List_Lexorder"
begin

section \<open>Go values used by both packages\<close>

text \<open>
  A Go \<^verbatim>\<open>error\<close> is a value. The two source files build errors with
  \<^verbatim>\<open>fmt.Errorf\<close> and \<^verbatim>\<open>errwrap.Wrapf\<close>, and compare against the sentinel
  \<^verbatim>\<open>sql.ErrNoRows\<close>. Any other error a library hands back is an \<open>Errorf\<close> with its
  message.
\<close>

datatype error =
    ErrNoRows
  | Errorf string
  | Wrapf string error

text \<open>
  \<^verbatim>\<open>time.Duration\<close> is a count of nanoseconds in an int64; \<^verbatim>\<open>time.Time\<close> is an
  instant with nanosecond resolution whose range (int64 seconds) is far wider than the
  range of a Duration. An instant is modelled by its distance in nanoseconds from Go's
  zero Time (January 1 of year 1, 00:00:00 UTC), so that \<open>0\<close> is \<^verbatim>\<open>time.Time{}\<close>.
  \<^verbatim>\<open>t.Add(d)\<close> is exact. \<^verbatim>\<open>t.Sub(u)\<close> is the difference when a Duration
  can hold it, and the largest or smallest Duration otherwise (the documented behaviour of
  \<^verbatim>\<open>Time.Sub\<close>).
\<close>

type_synonym Duration = int
type_synonym Time = int

definition minDuration :: Duration where
  "minDuration = - (2 ^ 63)"

definition maxDuration :: Duration where
  "maxDuration = 2 ^ 63 - 1"

definition Add :: "Time \<Rightarrow> Duration \<Rightarrow> Time" where
  "Add t d = t + d"

definition Sub :: "Time \<Rightarrow> Time \<Rightarrow> Duration" where
  "Sub t u =
     (let d = t - u in
      if d > maxDuration then maxDuration
      else if d < minDuration then minDuration
      else d)"

definition Hour :: Duration where
  "Hour = 3600 * 1000000000"

section \<open>logical/framework/lease.go\<close>

subsection \<open>The request\<close>

text \<open>
  The types of package \<^verbatim>\<open>logical\<close> are declared outside the two source files. The
  model keeps what \<^verbatim>\<open>lease.go\<close> touches: \<^verbatim>\<open>LeaseOptions\<close> with its fields
  \<^verbatim>\<open>Lease\<close> and \<^verbatim>\<open>LeaseIncrement\<close> (every further field of the struct lives in the
  record's extension \<open>'z\<close>), embedded in \<^verbatim>\<open>Auth\<close> and in \<^verbatim>\<open>Secret\<close>, and a
  \<^verbatim>\<open>Request\<close> holding a pointer to each, \<open>None\<close> for \<^verbatim>\<open>nil\<close>.
\<close>

record LeaseOptions =
  Lease :: Duration
  LeaseIncrement :: Duration

record 'z Auth =
  Auth_LeaseOptions :: "'z LeaseOptions_scheme"

record 'z Secret =
  Secret_LeaseOptions :: "'z LeaseOptions_scheme"

record 'z Request =
  Auth :: "'z Auth option"
  Secret :: "'z Secret option"

record 'z Response =
  Response_Auth :: "'z Auth option"
  Response_Secret :: "'z Secret option"

text \<open>
  \<^verbatim>\<open>detectLease\<close> returns a pointer into the request: \<^verbatim>\<open>&req.Auth.LeaseOptions\<close>,
  \<^verbatim>\<open>&req.Secret.LeaseOptions\<close> or \<^verbatim>\<open>nil\<close>. The model returns which of the two it
  is, together with the options the pointer reads at that moment.
\<close>

datatype LeasePtr = InAuth | InSecret

definition detectLease :: "'z Request \<Rightarrow> (LeasePtr \<times> 'z LeaseOptions_scheme) option" where
  "detectLease req =
     (case Auth req of
        Some a \<Rightarrow> Some (InAuth, Auth_LeaseOptions a)
      | None \<Rightarrow>
          (case Secret req of
             Some s \<Rightarrow> Some (InSecret, Secret_LeaseOptions s)
           | None \<Rightarrow> None))"

text \<open>The assignment \<^verbatim>\<open>lease.Lease = newLease\<close> through that pointer.\<close>

fun assign_Lease :: "'z Request \<Rightarrow> LeasePtr \<Rightarrow> Duration \<Rightarrow> 'z Request" where
  "assign_Lease req InAuth d =
     req\<lparr>Auth := map_option
        (\<lambda>a. a\<lparr>Auth_LeaseOptions := (Auth_LeaseOptions a)\<lparr>Lease := d\<rparr>\<rparr>) (Auth req)\<rparr>"
| "assign_Lease req InSecret d =
     req\<lparr>Secret := map_option
        (\<lambda>s. s\<lparr>Secret_LeaseOptions := (Secret_LeaseOptions s)\<lparr>Lease := d\<rparr>\<rparr>) (Secret req)\<rparr>"

subsection \<open>LeaseExtend\<close>

text \<open>
  The methods \<^verbatim>\<open>IncrementedLease\<close> and \<^verbatim>\<open>ExpirationTime\<close> of
  \<^verbatim>\<open>LeaseOptions\<close> are not in the source files; \<open>LeaseExtend\<close> takes them as its first
  two arguments, so that what is proved of it holds for every body they may have.
  \<open>mx\<close> is the argument \<^verbatim>\<open>max\<close>, \<open>now\<close> the one reading of \<^verbatim>\<open>time.Now().UTC()\<close>.
  The function returns what the Go closure returns together with the request as the
  call leaves it. The response holds the same two pointers as the request, so it sees
  the new lease.
\<close>

definition LeaseExtend ::
  "('z LeaseOptions_scheme \<Rightarrow> Duration \<Rightarrow> Duration) \<Rightarrow> ('z LeaseOptions_scheme \<Rightarrow> Time) \<Rightarrow>
   Duration \<Rightarrow> Time \<Rightarrow> 'z Request \<Rightarrow> (error + 'z Response) \<times> 'z Request" where
  "LeaseExtend IncrementedLease ExpirationTime mx now req =
     (case detectLease req of
        None \<Rightarrow> (Inl (Errorf ''no lease options for request''), req)
      | Some (p, lease) \<Rightarrow>
          (let newLease = IncrementedLease lease (LeaseIncrement lease);
               maxExpiration = Add now mx;
               newExpiration = Add now newLease;
               newLease = (if Sub newExpiration maxExpiration > 0
                           then Sub maxExpiration (ExpirationTime lease)
                           else newLease);
               req' = assign_Lease req p newLease
           in (Inr \<lparr>Response_Auth = Auth req', Response_Secret = Secret req'\<rparr>, req')))"

text \<open>
  The requests of the examples are described by the expiration they carry:
  \<open>expires_at t\<close> is an \<^verbatim>\<open>ExpirationTime\<close> that answers \<open>t\<close>.
\<close>

definition expires_at :: "Time \<Rightarrow> 'z LeaseOptions_scheme \<Rightarrow> Time" where
  "expires_at t l = t"

text \<open>
  Modelled from the spec: the body of \<^verbatim>\<open>IncrementedLease\<close>, which is missing from the
  source files. Section 4.4, step 2: "Compute the naively requested new lease length as
  the current lease plus the requested increment", read with the example of section 8,
  where a lease field of one hour, an increment of two hours and an original expiration
  equal to the time of the call request two hours ("2h \<le> 3h, no clamp"): the current
  lease is what the lease has left at the time of the call, its expiration minus
  \<open>now\<close>. The requested lease is the expiration, moved by the increment, as seen from
  \<open>now\<close>; the method reads the expiration through \<^verbatim>\<open>ExpirationTime\<close> and the clock
  itself, and the model hands it both.
\<close>

definition spec_IncrementedLease ::
  "('z LeaseOptions_scheme \<Rightarrow> Time) \<Rightarrow> Time \<Rightarrow> 'z LeaseOptions_scheme \<Rightarrow> Duration \<Rightarrow> Duration" where
  "spec_IncrementedLease ExpirationTime now l inc = Sub (Add (ExpirationTime l) inc) now"

text \<open>A Duration that an int64 can hold.\<close>

definition fits :: "int \<Rightarrow> bool" where
  "fits d = (minDuration \<le> d \<and> d \<le> maxDuration)"

section \<open>physical/mssql/mssql.go\<close>

subsection \<open>The table and the four prepared statements\<close>

text \<open>
  \<^verbatim>\<open>physical.Entry\<close> has a key and a value. The backing table has the columns
  \<^verbatim>\<open>Path VARCHAR(512) PRIMARY KEY\<close> and \<^verbatim>\<open>Value VARBINARY(MAX)\<close>; it is modelled by
  its rows, in the order the server would deliver them. A statement the server refuses (a
  lost connection, a path or value beyond the column's bound) is a failed call, see
  \<open>fault\<close> below. Paths are compared as the byte strings they are.
\<close>

type_synonym bytes = "8 word list"

record Entry =
  Key :: string
  Value :: bytes

type_synonym table = "(string \<times> bytes) list"

definition paths :: "table \<Rightarrow> string set" where
  "paths tbl = fst ` set tbl"

definition primary_key :: "table \<Rightarrow> bool" where
  "primary_key tbl = distinct (map fst tbl)"

text \<open>
  The operator \<^verbatim>\<open>LIKE\<close> of SQL: in the pattern \<^verbatim>\<open>%\<close> stands for any string and
  \<^verbatim>\<open>_\<close> for any one character; the statement has no \<^verbatim>\<open>ESCAPE\<close> clause. (The
  bracket classes of Transact-SQL are left out: the model is the operator on patterns
  without \<^verbatim>\<open>[\<close>.)
\<close>

fun like :: "string \<Rightarrow> string \<Rightarrow> bool" where
  "like [] [] = True"
| "like (x # s) [] = False"
| "like [] (c # pat) = (c = CHR ''%'' \<and> like [] pat)"
| "like (x # s) (c # pat) =
     (if c = CHR ''%'' then like (x # s) pat \<or> like s (c # pat)
      else (c = CHR ''_'' \<or> c = x) \<and> like s pat)"

text \<open>
  The statements of lines 147 to 153, by what they do to the table.
  \<^verbatim>\<open>IF EXISTS(SELECT 1 FROM t WHERE Path = ?) UPDATE t SET Value = ? WHERE Path = ?
  ELSE INSERT INTO t VALUES(?, ?)\<close> has five parameters; an insert of a path that is
  already there violates the primary key.
\<close>

definition stmt_put :: "table \<Rightarrow> string \<Rightarrow> bytes \<Rightarrow> string \<Rightarrow> string \<Rightarrow> bytes \<Rightarrow> error + table" where
  "stmt_put tbl a1 a2 a3 a4 a5 =
     (if a1 \<in> paths tbl
      then Inr (map (\<lambda>(p, v). if p = a3 then (p, a2) else (p, v)) tbl)
      else if a4 \<in> paths tbl
      then Inl (Errorf ''Violation of PRIMARY KEY constraint'')
      else Inr (tbl @ [(a4, a5)]))"

text \<open>\<^verbatim>\<open>SELECT Value FROM t WHERE Path = ?\<close>\<close>

definition stmt_get :: "table \<Rightarrow> string \<Rightarrow> bytes list" where
  "stmt_get tbl a1 = map snd (filter (\<lambda>(p, v). p = a1) tbl)"

text \<open>\<^verbatim>\<open>DELETE FROM t WHERE Path = ?\<close>\<close>

definition stmt_delete :: "table \<Rightarrow> string \<Rightarrow> table" where
  "stmt_delete tbl a1 = filter (\<lambda>(p, v). p \<noteq> a1) tbl"

text \<open>\<^verbatim>\<open>SELECT Path FROM t WHERE Path LIKE ?\<close>\<close>

definition stmt_list :: "table \<Rightarrow> string \<Rightarrow> string list" where
  "stmt_list tbl a1 = map fst (filter (\<lambda>(p, v). like p a1) tbl)"

subsection \<open>The calls of database/sql\<close>

text \<open>
  Every call into \<^verbatim>\<open>database/sql\<close> can fail for a reason of the store's. The argument
  \<open>fault\<close> says how the call at hand goes: \<open>None\<close> when the server runs the statement,
  \<open>Some err\<close> when the call reports \<open>err\<close>. After a failed \<^verbatim>\<open>Exec\<close> the model does not
  say what the table holds.
\<close>

definition put_Exec ::
  "table \<Rightarrow> error option \<Rightarrow> string \<Rightarrow> bytes \<Rightarrow> string \<Rightarrow> string \<Rightarrow> bytes \<Rightarrow> error + table" where
  "put_Exec tbl fault a1 a2 a3 a4 a5 =
     (case fault of Some err \<Rightarrow> Inl err | None \<Rightarrow> stmt_put tbl a1 a2 a3 a4 a5)"

text \<open>
  \<^verbatim>\<open>QueryRow(key).Scan(&result)\<close>: \<^verbatim>\<open>sql.ErrNoRows\<close> when the query has no row, the
  first row's value otherwise.
\<close>

definition get_QueryRow_Scan :: "table \<Rightarrow> error option \<Rightarrow> string \<Rightarrow> error + bytes" where
  "get_QueryRow_Scan tbl fault a1 =
     (case fault of
        Some err \<Rightarrow> Inl err
      | None \<Rightarrow> (case stmt_get tbl a1 of [] \<Rightarrow> Inl ErrNoRows | v # _ \<Rightarrow> Inr v))"

definition delete_Exec :: "table \<Rightarrow> error option \<Rightarrow> string \<Rightarrow> error + table" where
  "delete_Exec tbl fault a1 =
     (case fault of Some err \<Rightarrow> Inl err | None \<Rightarrow> Inr (stmt_delete tbl a1))"

text \<open>
  \<^verbatim>\<open>Query(likePrefix)\<close> and, for the \<open>i\<close>-th row it delivers, \<^verbatim>\<open>rows.Scan(&key)\<close>:
  \<open>scan i\<close> is the error of that scan, if it has one.
\<close>

definition list_Query ::
  "table \<Rightarrow> error option \<Rightarrow> (nat \<Rightarrow> error option) \<Rightarrow> string \<Rightarrow> error + (error + string) list" where
  "list_Query tbl fault scan a1 =
     (case fault of
        Some err \<Rightarrow> Inl err
      | None \<Rightarrow>
          Inr (map (\<lambda>(i, p). case scan i of Some err \<Rightarrow> Inl err | None \<Rightarrow> Inr p)
                 (enumerate 0 (stmt_list tbl a1))))"

definition scans_well :: "nat \<Rightarrow> error option" where
  "scans_well i = None"

subsection \<open>Helpers from Go's library and from helper/strutil\<close>

definition HasPrefix :: "string \<Rightarrow> string \<Rightarrow> bool" where
  "HasPrefix s pre = (length pre \<le> length s \<and> take (length pre) s = pre)"

definition TrimPrefix :: "string \<Rightarrow> string \<Rightarrow> string" where
  "TrimPrefix s pre = (if HasPrefix s pre then drop (length pre) s else s)"

text \<open>\<^verbatim>\<open>strings.Index\<close>: where the substring first starts, \<open>-1\<close> when it is not there.\<close>

fun Index :: "string \<Rightarrow> string \<Rightarrow> int" where
  "Index [] sub = (if sub = [] then 0 else - 1)"
| "Index (c # s) sub =
     (if HasPrefix (c # s) sub then 0
      else (let i = Index s sub in if i = - 1 then - 1 else i + 1))"

text \<open>
  Modelled from the spec: \<^verbatim>\<open>strutil.AppendIfMissing\<close>, which is missing from the source
  files. Section 4.3: "Results are deduplicated (append-if-absent)".
\<close>

definition AppendIfMissing :: "string list \<Rightarrow> string \<Rightarrow> string list" where
  "AppendIfMissing strs i = (if i \<in> set strs then strs else strs @ [i])"

text \<open>
  \<^verbatim>\<open>sort.Strings\<close> sorts by Go's \<^verbatim>\<open>\<less>\<close> on strings, which compares byte by byte:
  the lexicographic order of \<^theory_text>\<open>List_Lexorder\<close> over the order of characters by
  their codes.
\<close>

definition Strings :: "string list \<Rightarrow> string list" where
  "Strings keys = sort keys"

subsection \<open>Put, Get, Delete, List\<close>

text \<open>
  Each operation takes the table as it finds it and the outcome of its call into the
  store; it runs on a backend that the constructor has returned, which holds the four
  prepared statements, and \<open>Put\<close> is given an entry, not \<^verbatim>\<open>nil\<close>.
  \<^verbatim>\<open>permitPool.Acquire\<close>, \<^verbatim>\<open>permitPool.Release\<close> and the metrics timer bracket
  the call; they touch neither the table nor the result. \<open>Put\<close> and \<open>Delete\<close> return
  \<open>Inl err\<close> for the error \<open>err\<close> and \<open>Inr tbl'\<close> for \<^verbatim>\<open>nil\<close>, with the table the
  statement leaves. \<open>Get\<close> returns \<open>Inl err\<close> for \<^verbatim>\<open>(nil, err)\<close>, \<open>Inr None\<close> for
  \<^verbatim>\<open>(nil, nil)\<close> and \<open>Inr (Some ent)\<close> for \<^verbatim>\<open>(ent, nil)\<close>.
\<close>

definition Put :: "table \<Rightarrow> error option \<Rightarrow> Entry \<Rightarrow> error + table" where
  "Put tbl fault entry =
     (case put_Exec tbl fault (Key entry) (Value entry) (Key entry) (Key entry) (Value entry) of
        Inl err \<Rightarrow> Inl err
      | Inr tbl' \<Rightarrow> Inr tbl')"

definition Get :: "table \<Rightarrow> error option \<Rightarrow> string \<Rightarrow> error + Entry option" where
  "Get tbl fault key =
     (case get_QueryRow_Scan tbl fault key of
        Inl err \<Rightarrow> (if err = ErrNoRows then Inr None else Inl err)
      | Inr result \<Rightarrow> Inr (Some \<lparr>Key = key, Value = result\<rparr>))"

definition Delete :: "table \<Rightarrow> error option \<Rightarrow> string \<Rightarrow> error + table" where
  "Delete tbl fault key =
     (case delete_Exec tbl fault key of
        Inl err \<Rightarrow> Inl err
      | Inr tbl' \<Rightarrow> Inr tbl')"

text \<open>
  The body of the loop over \<^verbatim>\<open>rows.Next()\<close> once the row is scanned, lines 246 to
  251: \<open>keys\<close> is the slice built so far, the result is the slice after the row.
\<close>

definition List_row :: "string \<Rightarrow> string list \<Rightarrow> string \<Rightarrow> string list" where
  "List_row prefix keys key0 =
     (let key = TrimPrefix key0 prefix;
          i = Index key ''/''
      in if i = - 1 then keys @ [key]
         else if i \<noteq> - 1 then AppendIfMissing keys (take (nat (i + 1)) key)
         else keys)"

text \<open>The loop: a row whose scan fails ends it with the wrapped error.\<close>

fun List_rows :: "string \<Rightarrow> (error + string) list \<Rightarrow> string list \<Rightarrow> error + string list" where
  "List_rows prefix [] keys = Inr keys"
| "List_rows prefix (Inl err # rows) keys = Inl (Wrapf ''failed to scan rows: {{err}}'' err)"
| "List_rows prefix (Inr key # rows) keys = List_rows prefix rows (List_row prefix keys key)"

definition List :: "table \<Rightarrow> error option \<Rightarrow> (nat \<Rightarrow> error option) \<Rightarrow> string \<Rightarrow> error + string list" where
  "List tbl fault scan prefix =
     (let likePrefix = prefix @ ''%'' in
      case list_Query tbl fault scan likePrefix of
        Inl err \<Rightarrow> Inl err
      | Inr rows \<Rightarrow>
          (case List_rows prefix rows [] of
             Inl err \<Rightarrow> Inl err
           | Inr keys \<Rightarrow> Inr (Strings keys)))"

subsection \<open>Histories and listings\<close>

text \<open>
  A history of operations that the store runs without a fault, replayed from a table;
  \<open>stored S ops\<close> are the keys that have an entry after the history, when \<open>S\<close> are
  those that had one before it: the keys put and not deleted since.
\<close>

datatype op = PutOp Entry | DeleteOp string

fun replay :: "table \<Rightarrow> op list \<Rightarrow> error + table" where
  "replay tbl [] = Inr tbl"
| "replay tbl (PutOp entry # ops) =
     (case Put tbl None entry of Inl err \<Rightarrow> Inl err | Inr tbl' \<Rightarrow> replay tbl' ops)"
| "replay tbl (DeleteOp key # ops) =
     (case Delete tbl None key of Inl err \<Rightarrow> Inl err | Inr tbl' \<Rightarrow> replay tbl' ops)"

fun stored :: "string set \<Rightarrow> op list \<Rightarrow> string set" where
  "stored S [] = S"
| "stored S (PutOp entry # ops) = stored (insert (Key entry) S) ops"
| "stored S (DeleteOp key # ops) = stored (S - {key}) ops"

text \<open>
  The listing as section 4.3 of the spec words it: of every stored key that starts with
  the prefix, the rest after the prefix, whole when it has no separator and cut after its
  first separator when it has one. A prefix is \<open>literal\<close> when it has none of the
  characters that \<^verbatim>\<open>LIKE\<close> reads as a pattern.
\<close>

definition collapse :: "string \<Rightarrow> string" where
  "collapse r = (if CHR ''/'' \<in> set r then takeWhile (\<lambda>c. c \<noteq> CHR ''/'') r @ ''/'' else r)"

definition listing :: "table \<Rightarrow> string \<Rightarrow> string set" where
  "listing tbl pre = (\<lambda>p. collapse (drop (length pre) p)) ` {p \<in> paths tbl. HasPrefix p pre}"

definition literal :: "string \<Rightarrow> bool" where
  "literal pre = (CHR ''%'' \<notin> set pre \<and> CHR ''_'' \<notin> set pre \<and> CHR ''['' \<notin> set pre)"

subsection \<open>NewMSSQLBackend\<close>

text \<open>
  What the constructor meets outside the file: \<^verbatim>\<open>strconv.Atoi\<close>, the constant
  \<^verbatim>\<open>physical.DefaultParallelOperations\<close>, and the outcome of each call into
  \<^verbatim>\<open>database/sql\<close>, by the statement it carries. \<open>scan_error\<close> is the result of
  \<^verbatim>\<open>QueryRow(q).Scan(&num)\<close>, where \<^verbatim>\<open>sql.ErrNoRows\<close> says that the query has no row.
  Go's \<^verbatim>\<open>range\<close> walks every entry of the map \<^verbatim>\<open>statements\<close> once, in an order that
  the language does not fix: \<open>range_rank\<close> ranks the names, and the walk takes the
  entries by rank (any order of the four entries is the walk of some ranking).
\<close>

record env =
  Atoi :: "string \<Rightarrow> error + int"
  DefaultParallelOperations :: int
  open_error :: "error option"
  exec_error :: "string \<Rightarrow> error option"
  scan_error :: "string \<Rightarrow> error option"
  prepare_error :: "string \<Rightarrow> error option"
  range_rank :: "string \<Rightarrow> nat"

text \<open>The calls into \<^verbatim>\<open>database/sql\<close> that a run of the constructor issues, in order.\<close>

datatype call = Open | Exec string | QueryRow string | Prepare string

text \<open>
  The backend keeps the name of its table, its prepared statements by name (each known
  here by its query) and its permit pool (known here by the argument of
  \<^verbatim>\<open>physical.NewPermitPool\<close>); the handle and the logger are left out.
\<close>

record MSSQLBackend =
  dbTable :: string
  statements :: "string \<rightharpoonup> string"
  permitPool :: int

text \<open>A Go map read at a key it does not hold gives the empty string.\<close>

definition index_conf :: "(string \<rightharpoonup> string) \<Rightarrow> string \<Rightarrow> string" where
  "index_conf conf k = (case conf k of Some v \<Rightarrow> v | None \<Rightarrow> [])"

text \<open>Lines 39 to 52.\<close>

definition max_parallel :: "env \<Rightarrow> (string \<rightharpoonup> string) \<Rightarrow> error + int" where
  "max_parallel e conf =
     (case conf ''max_parallel'' of
        Some maxParStr \<Rightarrow>
          (case Atoi e maxParStr of
             Inl err \<Rightarrow> Inl (Wrapf ''failed parsing max_parallel parameter: {{err}}'' err)
           | Inr maxParInt \<Rightarrow> Inr maxParInt)
      | None \<Rightarrow> Inr (DefaultParallelOperations e))"

text \<open>
  Lines 54 to 85. The two loops walk maps whose entries touch different keys, so the
  order of the walk does not show.
\<close>

definition defaults :: "(string \<times> string) list" where
  "defaults =
     [(''database'', ''Vault''), (''table'', ''Vault''), (''appname'', ''Vault''),
      (''connection timeout'', ''30''), (''schema'', ''dbo''), (''log level'', ''0'')]"

definition backcomp :: "(string \<times> string) list" where
  "backcomp =
     [(''connectiontimeout'', ''connection timeout''), (''loglevel'', ''log level''),
      (''username'', ''user id'')]"

definition upgrade_keys :: "(string \<rightharpoonup> string) \<Rightarrow> (string \<rightharpoonup> string)" where
  "upgrade_keys conf =
     fold (\<lambda>(k, v) c. case c k of Some confv \<Rightarrow> (c(v \<mapsto> confv))(k := None) | None \<Rightarrow> c)
       backcomp conf"

definition inject_defaults :: "(string \<rightharpoonup> string) \<Rightarrow> (string \<rightharpoonup> string)" where
  "inject_defaults conf =
     fold (\<lambda>(k, v) c. if c k = None then c(k \<mapsto> v) else c) defaults conf"

text \<open>The single quote and the double quote, for the texts below.\<close>

definition sq :: string where
  "sq = [CHR 0x27]"

definition dq :: string where
  "dq = [CHR 0x22]"

text \<open>Lines 116 to 133, after the calls \<open>calls\<close>.\<close>

definition ensure_schema :: "env \<Rightarrow> string \<Rightarrow> string \<Rightarrow> call list \<Rightarrow> error option \<times> call list" where
  "ensure_schema e database schema calls =
     (if schema \<noteq> ''dbo'' then
        (let use = ''USE '' @ database;
             calls1 = calls @ [Exec use]
         in case exec_error e use of
              Some err \<Rightarrow> (Some (Wrapf ''failed to switch mssql database: {{err}}'' err), calls1)
            | None \<Rightarrow>
                (let probe = ''SELECT 1 FROM sys.schemas WHERE name = '' @ sq @ schema @ sq;
                     calls2 = calls1 @ [QueryRow probe]
                 in case scan_error e probe of
                      Some err \<Rightarrow>
                        (if err = ErrNoRows then
                           (let create = ''CREATE SCHEMA '' @ schema;
                                calls3 = calls2 @ [Exec create]
                            in case exec_error e create of
                                 Some err \<Rightarrow>
                                   (Some (Wrapf ''failed to create mssql schema: {{err}}'' err), calls3)
                               | None \<Rightarrow> (None, calls3))
                         else
                           (Some (Wrapf ''failed to check if mssql schema exists: {{err}}'' err),
                            calls2))
                    | None \<Rightarrow> (None, calls2)))
      else (None, calls))"

text \<open>Lines 104 to 107 and 135 to 137: the texts \<^verbatim>\<open>createDatabase\<close> and \<^verbatim>\<open>createQuery\<close>.\<close>

definition createDatabase :: "string \<Rightarrow> string" where
  "createDatabase database =
     ''IF NOT EXISTS(SELECT * FROM sys.databases WHERE name = '' @ sq @ database @ sq @
     '') CREATE DATABASE '' @ database"

definition createQuery :: "string \<Rightarrow> string \<Rightarrow> string \<Rightarrow> string" where
  "createQuery database schema tab =
     ''IF NOT EXISTS(SELECT 1 FROM '' @ database @
     ''.INFORMATION_SCHEMA.TABLES WHERE TABLE_TYPE='' @ sq @ ''BASE TABLE'' @ sq @
     '' AND TABLE_NAME='' @ sq @ tab @ sq @ '' AND TABLE_SCHEMA='' @ sq @ schema @
     sq @ '') CREATE TABLE '' @ (database @ ''.'' @ schema @ ''.'' @ tab) @
     '' (Path VARCHAR(512) PRIMARY KEY, Value VARBINARY(MAX))''"

text \<open>Lines 108 to 137: the database, the schema, the table.\<close>

definition bootstrap ::
  "env \<Rightarrow> string \<Rightarrow> string \<Rightarrow> string \<Rightarrow> call list \<Rightarrow> error option \<times> call list" where
  "bootstrap e database schema tab calls =
     (let calls1 = calls @ [Exec (createDatabase database)]
      in case exec_error e (createDatabase database) of
           Some err \<Rightarrow> (Some (Wrapf ''failed to create mssql database: {{err}}'' err), calls1)
         | None \<Rightarrow>
             (case ensure_schema e database schema calls1 of
                (Some err, calls2) \<Rightarrow> (Some err, calls2)
              | (None, calls2) \<Rightarrow>
                  (let calls3 = calls2 @ [Exec (createQuery database schema tab)]
                   in case exec_error e (createQuery database schema tab) of
                        Some err \<Rightarrow>
                          (Some (Wrapf ''failed to create mssql table: {{err}}'' err), calls3)
                      | None \<Rightarrow> (None, calls3))))"

text \<open>Lines 147 to 153: the map \<^verbatim>\<open>statements\<close>, name to query.\<close>

definition statement_texts :: "string \<Rightarrow> (string \<times> string) list" where
  "statement_texts t =
     [(''put'', ''IF EXISTS(SELECT 1 FROM '' @ t @ '' WHERE Path = ?) UPDATE '' @ t @
               '' SET Value = ? WHERE Path = ?'' @ '' ELSE INSERT INTO '' @ t @ '' VALUES(?, ?)''),
      (''get'', ''SELECT Value FROM '' @ t @ '' WHERE Path = ?''),
      (''delete'', ''DELETE FROM '' @ t @ '' WHERE Path = ?''),
      (''list'', ''SELECT Path FROM '' @ t @ '' WHERE Path LIKE ?'')]"

text \<open>
  \<^verbatim>\<open>m.prepare(name, query)\<close>: the prepared statement, known here by its query, is
  stored under its name. \<^verbatim>\<open>%q\<close> puts the name between double quotes.
\<close>

definition prepare ::
  "env \<Rightarrow> (string \<rightharpoonup> string) \<Rightarrow> string \<Rightarrow> string \<Rightarrow> error + (string \<rightharpoonup> string)" where
  "prepare e stmts name query =
     (case prepare_error e query of
        Some err \<Rightarrow> Inl (Wrapf (''failed to prepare '' @ dq @ name @ dq @ '': {{err}}'') err)
      | None \<Rightarrow> Inr (stmts(name \<mapsto> query)))"

text \<open>The walk of \<^verbatim>\<open>range\<close> over the map: every entry once, by rank of its name.\<close>

definition range_walk :: "env \<Rightarrow> (string \<times> string) list \<Rightarrow> (string \<times> string) list" where
  "range_walk e qs = sort_key (\<lambda>(name, query). range_rank e name) qs"

text \<open>Lines 155 to 159: the loop over the map, in the order the walk takes.\<close>

fun prepare_all ::
  "env \<Rightarrow> (string \<times> string) list \<Rightarrow> (string \<rightharpoonup> string) \<Rightarrow> call list \<Rightarrow>
   (error + (string \<rightharpoonup> string)) \<times> call list" where
  "prepare_all e [] stmts calls = (Inr stmts, calls)"
| "prepare_all e ((name, query) # rest) stmts calls =
     (case prepare e stmts name query of
        Inl err \<Rightarrow> (Inl err, calls @ [Prepare query])
      | Inr stmts' \<Rightarrow> prepare_all e rest stmts' (calls @ [Prepare query]))"

text \<open>
  The constructor returns \<open>Inl err\<close> for \<^verbatim>\<open>(nil, err)\<close> and \<open>Inr m\<close> for
  \<^verbatim>\<open>(m, nil)\<close>, together with the calls it has issued. The connection string is put
  together from the configuration and reaches \<^verbatim>\<open>sql.Open\<close> only.
\<close>

definition NewMSSQLBackend ::
  "env \<Rightarrow> (string \<rightharpoonup> string) \<Rightarrow> (error + MSSQLBackend) \<times> call list" where
  "NewMSSQLBackend e conf0 =
     (case max_parallel e conf0 of
        Inl err \<Rightarrow> (Inl err, [])
      | Inr maxParInt \<Rightarrow>
          (let conf = inject_defaults (upgrade_keys conf0) in
           case open_error e of
             Some err \<Rightarrow> (Inl (Wrapf ''failed to connect to mssql: {{err}}'' err), [Open])
           | None \<Rightarrow>
               (let database = index_conf conf ''database'';
                    schema = index_conf conf ''schema'';
                    tab = index_conf conf ''table'';
                    dbTable = database @ ''.'' @ schema @ ''.'' @ tab
                in case bootstrap e database schema tab [Open] of
                     (Some err, calls) \<Rightarrow> (Inl err, calls)
                   | (None, calls) \<Rightarrow>
                       (case prepare_all e (range_walk e (statement_texts dbTable))
                               Map.empty calls of
                          (Inl err, calls') \<Rightarrow> (Inl err, calls')
                        | (Inr stmts, calls') \<Rightarrow>
                            (Inr \<lparr>dbTable = dbTable, statements = stmts,
                                  permitPool = maxParInt\<rparr>, calls')))))"

text \<open>
  The error of a call, as the constructor reads it: the probe for the schema has not
  failed when it finds no row.
\<close>

fun call_error :: "env \<Rightarrow> call \<Rightarrow> error option" where
  "call_error e Open = open_error e"
| "call_error e (Exec q) = exec_error e q"
| "call_error e (QueryRow q) =
     (case scan_error e q of
        Some err \<Rightarrow> (if err = ErrNoRows then None else Some err)
      | None \<Rightarrow> None)"
| "call_error e (Prepare q) = prepare_error e q"

text \<open>
  The steps of a construction, in the order of the source: each is a call and the
  message that the source wraps the error of that call in. Lines 117 to 133 for the
  schema (the schema is created only when the probe finds no row), lines 108 to 137 for
  the database and the table, lines 97 to 159 for the whole: the handle, the database,
  the schema, the table, and one preparation for every entry of the map, as the walk
  takes them.
\<close>

definition schema_steps :: "env \<Rightarrow> string \<Rightarrow> string \<Rightarrow> (call \<times> string) list" where
  "schema_steps e database schema =
     (if schema \<noteq> ''dbo'' then
        [(Exec (''USE '' @ database), ''failed to switch mssql database: {{err}}''),
         (QueryRow (''SELECT 1 FROM sys.schemas WHERE name = '' @ sq @ schema @ sq),
          ''failed to check if mssql schema exists: {{err}}'')] @
        (if scan_error e (''SELECT 1 FROM sys.schemas WHERE name = '' @ sq @ schema @ sq) =
            Some ErrNoRows
         then [(Exec (''CREATE SCHEMA '' @ schema), ''failed to create mssql schema: {{err}}'')]
         else [])
      else [])"

definition bootstrap_steps :: "env \<Rightarrow> string \<Rightarrow> string \<Rightarrow> string \<Rightarrow> (call \<times> string) list" where
  "bootstrap_steps e database schema tab =
     [(Exec (createDatabase database), ''failed to create mssql database: {{err}}'')] @
     schema_steps e database schema @
     [(Exec (createQuery database schema tab), ''failed to create mssql table: {{err}}'')]"

definition prepare_step :: "string \<times> string \<Rightarrow> call \<times> string" where
  "prepare_step = (\<lambda>(name, query).
     (Prepare query, ''failed to prepare '' @ dq @ name @ dq @ '': {{err}}''))"

definition construction_steps :: "env \<Rightarrow> (string \<rightharpoonup> string) \<Rightarrow> (call \<times> string) list" where
  "construction_steps e conf0 =
     (let conf = inject_defaults (upgrade_keys conf0);
          database = index_conf conf ''database'';
          schema = index_conf conf ''schema'';
          tab = index_conf conf ''table'';
          dbTable = database @ ''.'' @ schema @ ''.'' @ tab
      in (Open, ''failed to connect to mssql: {{err}}'') #
         bootstrap_steps e database schema tab @
         map prepare_step (range_walk e (statement_texts dbTable)))"

text \<open>
  Steps issued one after the other, after the calls \<open>calls\<close>, until one fails: the
  wrapped error of the step that failed, if one did, and the calls issued.
\<close>

fun issue :: "env \<Rightarrow> (call \<times> string) list \<Rightarrow> call list \<Rightarrow> error option \<times> call list" where
  "issue e [] calls = (None, calls)"
| "issue e ((c, msg) # rest) calls =
     (case call_error e c of
        Some err \<Rightarrow> (Some (Wrapf msg err), calls @ [c])
      | None \<Rightarrow> issue e rest (calls @ [c]))"

text \<open>
  An environment for the examples: a store where the schema \<^verbatim>\<open>kv\<close> does not exist
  yet and may not be created, and where the statement that deletes from the table
  \<^verbatim>\<open>Audit\<close> cannot be prepared. The walk over the map of statements takes the shorter
  names first, and no \<^verbatim>\<open>max_parallel\<close> is parsed.
\<close>

definition fails_on :: "string \<Rightarrow> error \<Rightarrow> string \<Rightarrow> error option" where
  "fails_on q err q' = (if q' = q then Some err else None)"

definition Atoi_invalid :: "string \<Rightarrow> error + int" where
  "Atoi_invalid s = Inl (Errorf ''invalid syntax'')"

definition env_denied :: env where
  "env_denied =
     \<lparr>Atoi = Atoi_invalid, DefaultParallelOperations = 128, open_error = None,
      exec_error = fails_on ''CREATE SCHEMA kv'' (Errorf ''permission denied''),
      scan_error =
        fails_on (''SELECT 1 FROM sys.schemas WHERE name = '' @ sq @ ''kv'' @ sq) ErrNoRows,
      prepare_error =
        fails_on ''DELETE FROM Vault.dbo.Audit WHERE Path = ?'' (Errorf ''connection reset''),
      range_rank = length\<rparr>"

subsection \<open>The permit pool and concurrent callers\<close>

text \<open>
  Modelled from the spec: \<^verbatim>\<open>physical.NewPermitPool\<close>, which is missing from the source
  files. Section 4.1: "Capacity is fixed at construction from a configured maximum". The
  pool is known by the number of permits it has left.
\<close>

definition NewPermitPool :: "nat \<Rightarrow> nat" where
  "NewPermitPool permits = permits"

text \<open>
  Modelled from the spec: \<^verbatim>\<open>PermitPool.Acquire\<close>, which is missing from the source
  files. Section 4.1: "acquire() blocks the calling execution context until a permit is
  available, then decrements available permits". \<open>None\<close>: the caller stays blocked.
\<close>

definition PermitPool_Acquire :: "nat \<Rightarrow> nat option" where
  "PermitPool_Acquire avail = (if 0 < avail then Some (avail - 1) else None)"

text \<open>
  Modelled from the spec: \<^verbatim>\<open>PermitPool.Release\<close>, which is missing from the source
  files. Section 4.1: "release() increments available permits".
\<close>

definition PermitPool_Release :: "nat \<Rightarrow> nat" where
  "PermitPool_Release avail = avail + 1"

text \<open>
  \<open>Put\<close>, \<open>Get\<close>, \<open>Delete\<close> and \<open>List\<close> have the same bracket around what they do
  with the store: \<^verbatim>\<open>m.permitPool.Acquire()\<close>, then \<^verbatim>\<open>defer m.permitPool.Release()\<close>,
  then the statement, then a \<^verbatim>\<open>return\<close> of its error or of \<^verbatim>\<open>nil\<close>, at which the
  deferred release runs. A caller is \<open>Waiting\<close> until its acquire has gone through,
  \<open>Holding\<close> until its statement has come back, \<open>Ran r\<close> once it has come back with
  the outcome \<open>r\<close> (an error or none) and the release is still to run, \<open>Finished r\<close>
  after the release.
\<close>

datatype pc = Waiting | Holding | Ran "error option" | Finished "error option"

record system =
  pool :: nat
  callers :: "pc list"

text \<open>
  Callers run side by side; a run of the system is the sequence in which their steps
  happen. \<open>fire\<close> is one step of one caller, \<open>None\<close> when that caller cannot take it
  now (an acquire with no permit left waits); \<open>run\<close> follows a schedule, \<open>None\<close> when
  the schedule cannot happen.
\<close>

datatype event = Acquire nat | Statement nat "error option" | Release nat

definition start :: "nat \<Rightarrow> nat \<Rightarrow> system" where
  "start C N = \<lparr>pool = NewPermitPool C, callers = replicate N Waiting\<rparr>"

fun fire :: "system \<Rightarrow> event \<Rightarrow> system option" where
  "fire s (Acquire i) =
     (if i < length (callers s) \<and> callers s ! i = Waiting then
        (case PermitPool_Acquire (pool s) of
           None \<Rightarrow> None
         | Some a \<Rightarrow> Some \<lparr>pool = a, callers = (callers s)[i := Holding]\<rparr>)
      else None)"
| "fire s (Statement i r) =
     (if i < length (callers s) \<and> callers s ! i = Holding
      then Some \<lparr>pool = pool s, callers = (callers s)[i := Ran r]\<rparr>
      else None)"
| "fire s (Release i) =
     (if i < length (callers s) then
        (case callers s ! i of
           Ran r \<Rightarrow> Some \<lparr>pool = PermitPool_Release (pool s),
                          callers = (callers s)[i := Finished r]\<rparr>
         | _ \<Rightarrow> None)
      else None)"

fun run :: "system \<Rightarrow> event list \<Rightarrow> system option" where
  "run s [] = Some s"
| "run s (ev # evs) = (case fire s ev of None \<Rightarrow> None | Some s' \<Rightarrow> run s' evs)"

text \<open>
  The callers that hold a permit, the caller of an event, and the events of caller \<open>i\<close>
  so far, read off where it stands.
\<close>

fun holds :: "pc \<Rightarrow> bool" where
  "holds Waiting = False"
| "holds Holding = True"
| "holds (Ran r) = True"
| "holds (Finished r) = False"

definition holders :: "system \<Rightarrow> nat" where
  "holders s = length (filter holds (callers s))"

fun caller :: "event \<Rightarrow> nat" where
  "caller (Acquire i) = i"
| "caller (Statement i r) = i"
| "caller (Release i) = i"

fun history :: "nat \<Rightarrow> pc \<Rightarrow> event list" where
  "history i Waiting = []"
| "history i Holding = [Acquire i]"
| "history i (Ran r) = [Acquire i, Statement i r]"
| "history i (Finished r) = [Acquire i, Statement i r, Release i]"

definition balanced :: "nat \<Rightarrow> nat \<Rightarrow> system \<Rightarrow> bool" where
  "balanced C N s = (holders s + pool s = C \<and> length (callers s) = N)"

definition ordered :: "event list \<Rightarrow> system \<Rightarrow> bool" where
  "ordered sched s =
     (\<forall>i < length (callers s). filter (\<lambda>ev. caller ev = i) sched = history i (callers s ! i))"

section \<open>Properties of LeaseExtend\<close>

lemma Sub_pos_iff: "0 < Sub t u \<longleftrightarrow> u < t"
  by (auto simp: Sub_def Let_def minDuration_def maxDuration_def)

lemma Sub_exact: "fits (t - u) \<Longrightarrow> Sub t u = t - u"
  by (auto simp: Sub_def Let_def fits_def)

lemma Sub_nonpos_iff: "Sub t u \<le> 0 \<longleftrightarrow> t \<le> u"
  by (auto simp: Sub_def Let_def minDuration_def maxDuration_def)

lemma Sub_zero_iff: "Sub t u = 0 \<longleftrightarrow> t = u"
  by (auto simp: Sub_def Let_def minDuration_def maxDuration_def)

lemma detectLease_assign:
  "detectLease req = Some (p, lease) \<Longrightarrow>
   detectLease (assign_Lease req p d) = Some (p, lease\<lparr>Lease := d\<rparr>)"
  by (cases p) (auto simp: detectLease_def split: option.splits)

text \<open>
  C6. A request with neither an auth context nor a secret context: \<open>LeaseExtend\<close>
  returns the error "no lease options for request", and the request it leaves is the
  request it was given, whatever the two methods, the bound and the clock are.
\<close>

theorem LeaseExtend_no_lease_options:
  assumes "Auth req = None" and "Secret req = None"
  shows "LeaseExtend IncrementedLease ExpirationTime mx now req =
           (Inl (Errorf ''no lease options for request''), req)"
  using assms by (simp add: LeaseExtend_def detectLease_def)

theorem LeaseExtend_no_lease_options_witness:
  "Auth \<lparr>Auth = None, Secret = None\<rparr> = (None :: unit Auth option) \<and>
   Secret \<lparr>Auth = None, Secret = None\<rparr> = (None :: unit Secret option) \<and>
   LeaseExtend (spec_IncrementedLease (expires_at (1001 * Hour)) (1000 * Hour))
       (expires_at (1001 * Hour)) (3 * Hour) (1000 * Hour) \<lparr>Auth = None, Secret = None\<rparr> =
     (Inl (Errorf ''no lease options for request''),
      \<lparr>Auth = (None :: unit Auth option), Secret = None\<rparr>)"
  using LeaseExtend_no_lease_options
    [where req = "\<lparr>Auth = (None :: unit Auth option), Secret = None\<rparr>"
       and IncrementedLease = "spec_IncrementedLease (expires_at (1001 * Hour)) (1000 * Hour)"
       and ExpirationTime = "expires_at (1001 * Hour)"
       and mx = "3 * Hour" and now = "1000 * Hour"]
  by simp

text \<open>
  C1. A request with an auth or a secret lease context, whose requested expiration
  (\<open>now\<close> plus the lease that \<^verbatim>\<open>IncrementedLease\<close> returns for the requested
  increment, whatever the body of that method is) is past \<open>now + max\<close>: \<open>LeaseExtend\<close>
  succeeds and writes into the lease field \<^verbatim>\<open>maxExpiration.Sub\<close> of the expiration
  the context had before the call; no other field of the request changes. That is
  \<open>(now + max) - expiration\<close> whenever a Duration can hold this difference (an
  expiration within some 292 years of \<open>now + max\<close>), and then it equals
  \<open>(now + max) - now\<close> only for an expiration equal to \<open>now\<close>. Outside that range
  \<^verbatim>\<open>Time.Sub\<close> answers the largest or the smallest Duration.
\<close>

theorem LeaseExtend_clamped:
  assumes "detectLease req = Some (p, lease)"
      and "Add now mx < Add now (IncrementedLease lease (LeaseIncrement lease))"
  shows "\<exists>d req'. d = Sub (Add now mx) (ExpirationTime lease) \<and> req' = assign_Lease req p d \<and>
           LeaseExtend IncrementedLease ExpirationTime mx now req =
             (Inr \<lparr>Response_Auth = Auth req', Response_Secret = Secret req'\<rparr>, req') \<and>
           detectLease req' = Some (p, lease\<lparr>Lease := d\<rparr>) \<and>
           (fits (now + mx - ExpirationTime lease) \<longrightarrow>
              d = now + mx - ExpirationTime lease \<and>
              (d = now + mx - now \<longleftrightarrow> ExpirationTime lease = now)) \<and>
           (maxDuration < now + mx - ExpirationTime lease \<longrightarrow> d = maxDuration) \<and>
           (now + mx - ExpirationTime lease < minDuration \<longrightarrow> d = minDuration)"
proof -
  let ?d = "Sub (Add now mx) (ExpirationTime lease)"
  have run: "LeaseExtend IncrementedLease ExpirationTime mx now req =
      (Inr \<lparr>Response_Auth = Auth (assign_Lease req p ?d),
            Response_Secret = Secret (assign_Lease req p ?d)\<rparr>, assign_Lease req p ?d)"
    using assms by (simp add: LeaseExtend_def Let_def Sub_pos_iff)
  have ptr: "detectLease (assign_Lease req p ?d) = Some (p, lease\<lparr>Lease := ?d\<rparr>)"
    using assms(1) by (rule detectLease_assign)
  have exact: "fits (now + mx - ExpirationTime lease) \<longrightarrow>
      ?d = now + mx - ExpirationTime lease \<and>
      (?d = now + mx - now \<longleftrightarrow> ExpirationTime lease = now)"
    using Sub_exact [of "Add now mx" "ExpirationTime lease"] by (auto simp: Add_def)
  have hi: "maxDuration < now + mx - ExpirationTime lease \<longrightarrow> ?d = maxDuration"
    by (simp add: Sub_def Add_def Let_def)
  have lo: "now + mx - ExpirationTime lease < minDuration \<longrightarrow> ?d = minDuration"
    by (simp add: Sub_def Add_def Let_def minDuration_def maxDuration_def)
  from run ptr exact hi lo show ?thesis by blast
qed

theorem LeaseExtend_clamped_witness:
  "detectLease \<lparr>Auth = Some \<lparr>Auth_LeaseOptions = \<lparr>Lease = Hour, LeaseIncrement = 7 * Hour\<rparr>\<rparr>,
                 Secret = None\<rparr> =
     Some (InAuth, \<lparr>Lease = Hour, LeaseIncrement = 7 * Hour\<rparr>) \<and>
   Add (1000 * Hour) (3 * Hour) <
     Add (1000 * Hour)
       (spec_IncrementedLease (expires_at (1001 * Hour)) (1000 * Hour)
          \<lparr>Lease = Hour, LeaseIncrement = 7 * Hour\<rparr> (7 * Hour)) \<and>
   fits (1000 * Hour + 3 * Hour - 1001 * Hour) \<and>
   LeaseExtend (spec_IncrementedLease (expires_at (1001 * Hour)) (1000 * Hour))
       (expires_at (1001 * Hour)) (3 * Hour) (1000 * Hour)
       \<lparr>Auth = Some \<lparr>Auth_LeaseOptions = \<lparr>Lease = Hour, LeaseIncrement = 7 * Hour\<rparr>\<rparr>,
        Secret = None\<rparr> =
     (Inr \<lparr>Response_Auth =
             Some \<lparr>Auth_LeaseOptions = \<lparr>Lease = 2 * Hour, LeaseIncrement = 7 * Hour\<rparr>\<rparr>,
           Response_Secret = None\<rparr>,
      \<lparr>Auth = Some \<lparr>Auth_LeaseOptions = \<lparr>Lease = 2 * Hour, LeaseIncrement = 7 * Hour\<rparr>\<rparr>,
       Secret = None\<rparr>)"
proof -
  let ?l = "\<lparr>Lease = Hour, LeaseIncrement = 7 * Hour\<rparr>"
  let ?req = "\<lparr>Auth = Some \<lparr>Auth_LeaseOptions = ?l\<rparr>, Secret = None\<rparr>"
  let ?inc = "spec_IncrementedLease (expires_at (1001 * Hour)) (1000 * Hour)"
  have ctx: "detectLease ?req = Some (InAuth, ?l)"
    by (simp add: detectLease_def)
  have over: "Add (1000 * Hour) (3 * Hour) < Add (1000 * Hour) (?inc ?l (LeaseIncrement ?l))"
    by (simp add: Add_def Sub_def spec_IncrementedLease_def expires_at_def Hour_def
        minDuration_def maxDuration_def)
  have f: "fits (1000 * Hour + 3 * Hour - 1001 * Hour)"
    by (simp add: fits_def Hour_def minDuration_def maxDuration_def)
  note th = LeaseExtend_clamped [where req = "?req" and p = InAuth and lease = "?l"
      and now = "1000 * Hour" and mx = "3 * Hour" and IncrementedLease = "?inc"
      and ExpirationTime = "expires_at (1001 * Hour)"]
  from th [OF ctx over] f
  have "LeaseExtend ?inc (expires_at (1001 * Hour)) (3 * Hour) (1000 * Hour) ?req =
     (Inr \<lparr>Response_Auth = Auth (assign_Lease ?req InAuth (1000 * Hour + 3 * Hour - 1001 * Hour)),
           Response_Secret = Secret (assign_Lease ?req InAuth (1000 * Hour + 3 * Hour - 1001 * Hour))\<rparr>,
      assign_Lease ?req InAuth (1000 * Hour + 3 * Hour - 1001 * Hour))"
    by (auto simp: expires_at_def)
  with ctx over f show ?thesis by simp
qed

text \<open>
  C7. A request with a lease context whose requested expiration (\<open>now\<close> plus the
  lease that \<^verbatim>\<open>IncrementedLease\<close> returns for the requested increment) is not past
  \<open>now + max\<close>: \<open>LeaseExtend\<close> succeeds and writes the requested lease into the lease
  field as the method returned it, whatever its body is; no other field of the
  request changes. With the body that the spec gives the method, the requested lease is
  the current lease, which is what the lease has left at \<open>now\<close>, plus the requested
  increment, whenever a Duration can hold that sum. The example of the
  claim (lease field one hour, increment two hours, bound three hours, expiration equal
  to \<open>now\<close>) has a new lease of two hours.
\<close>

theorem LeaseExtend_within_limit:
  assumes "detectLease req = Some (p, lease)"
      and "\<not> Add now mx < Add now (IncrementedLease lease (LeaseIncrement lease))"
  shows "\<exists>d req'. d = IncrementedLease lease (LeaseIncrement lease) \<and>
           req' = assign_Lease req p d \<and>
           LeaseExtend IncrementedLease ExpirationTime mx now req =
             (Inr \<lparr>Response_Auth = Auth req', Response_Secret = Secret req'\<rparr>, req') \<and>
           detectLease req' = Some (p, lease\<lparr>Lease := d\<rparr>) \<and>
           (IncrementedLease = spec_IncrementedLease ExpirationTime now \<longrightarrow>
            fits (ExpirationTime lease - now + LeaseIncrement lease) \<longrightarrow>
              d = (ExpirationTime lease - now) + LeaseIncrement lease)"
proof -
  let ?d = "IncrementedLease lease (LeaseIncrement lease)"
  have run: "LeaseExtend IncrementedLease ExpirationTime mx now req =
      (Inr \<lparr>Response_Auth = Auth (assign_Lease req p ?d),
            Response_Secret = Secret (assign_Lease req p ?d)\<rparr>, assign_Lease req p ?d)"
    using assms by (simp add: LeaseExtend_def Let_def Sub_pos_iff)
  have ptr: "detectLease (assign_Lease req p ?d) = Some (p, lease\<lparr>Lease := ?d\<rparr>)"
    using assms(1) by (rule detectLease_assign)
  have left: "IncrementedLease = spec_IncrementedLease ExpirationTime now \<longrightarrow>
      fits (ExpirationTime lease - now + LeaseIncrement lease) \<longrightarrow>
      ?d = (ExpirationTime lease - now) + LeaseIncrement lease"
    using Sub_exact [of "Add (ExpirationTime lease) (LeaseIncrement lease)" now]
    by (auto simp: spec_IncrementedLease_def Add_def algebra_simps)
  from run ptr left show ?thesis by blast
qed

theorem LeaseExtend_within_limit_witness:
  "detectLease \<lparr>Auth = Some \<lparr>Auth_LeaseOptions = \<lparr>Lease = Hour, LeaseIncrement = 2 * Hour\<rparr>\<rparr>,
                 Secret = None\<rparr> =
     Some (InAuth, \<lparr>Lease = Hour, LeaseIncrement = 2 * Hour\<rparr>) \<and>
   \<not> Add (1000 * Hour) (3 * Hour) <
       Add (1000 * Hour)
         (spec_IncrementedLease (expires_at (1000 * Hour)) (1000 * Hour)
            \<lparr>Lease = Hour, LeaseIncrement = 2 * Hour\<rparr> (2 * Hour)) \<and>
   fits (1000 * Hour - 1000 * Hour + 2 * Hour) \<and>
   LeaseExtend (spec_IncrementedLease (expires_at (1000 * Hour)) (1000 * Hour))
       (expires_at (1000 * Hour)) (3 * Hour) (1000 * Hour)
       \<lparr>Auth = Some \<lparr>Auth_LeaseOptions = \<lparr>Lease = Hour, LeaseIncrement = 2 * Hour\<rparr>\<rparr>,
        Secret = None\<rparr> =
     (Inr \<lparr>Response_Auth =
             Some \<lparr>Auth_LeaseOptions = \<lparr>Lease = 2 * Hour, LeaseIncrement = 2 * Hour\<rparr>\<rparr>,
           Response_Secret = None\<rparr>,
      \<lparr>Auth = Some \<lparr>Auth_LeaseOptions = \<lparr>Lease = 2 * Hour, LeaseIncrement = 2 * Hour\<rparr>\<rparr>,
       Secret = None\<rparr>)"
proof -
  let ?l = "\<lparr>Lease = Hour, LeaseIncrement = 2 * Hour\<rparr>"
  let ?req = "\<lparr>Auth = Some \<lparr>Auth_LeaseOptions = ?l\<rparr>, Secret = None\<rparr>"
  let ?inc = "spec_IncrementedLease (expires_at (1000 * Hour)) (1000 * Hour)"
  have ctx: "detectLease ?req = Some (InAuth, ?l)"
    by (simp add: detectLease_def)
  have two: "?inc ?l (2 * Hour) = 2 * Hour"
    by (simp add: Add_def Sub_def spec_IncrementedLease_def expires_at_def Hour_def
        minDuration_def maxDuration_def)
  have within: "\<not> Add (1000 * Hour) (3 * Hour) < Add (1000 * Hour) (?inc ?l (LeaseIncrement ?l))"
    by (simp add: Add_def Sub_def spec_IncrementedLease_def expires_at_def Hour_def
        minDuration_def maxDuration_def)
  have f: "fits (1000 * Hour - 1000 * Hour + 2 * Hour)"
    by (simp add: fits_def Hour_def minDuration_def maxDuration_def)
  note th = LeaseExtend_within_limit [where req = "?req" and p = InAuth and lease = "?l"
      and now = "1000 * Hour" and mx = "3 * Hour" and IncrementedLease = "?inc"
      and ExpirationTime = "expires_at (1000 * Hour)"]
  from th [OF ctx within]
  have "LeaseExtend ?inc (expires_at (1000 * Hour)) (3 * Hour) (1000 * Hour) ?req =
     (Inr \<lparr>Response_Auth = Auth (assign_Lease ?req InAuth (2 * Hour)),
           Response_Secret = Secret (assign_Lease ?req InAuth (2 * Hour))\<rparr>,
      assign_Lease ?req InAuth (2 * Hour))"
    by (auto simp: two)
  with ctx within f show ?thesis by simp
qed

text \<open>
  C10. In the clamped branch, with the context's expiration at or past \<open>now + max\<close>:
  \<open>LeaseExtend\<close> succeeds, and the lease it writes is \<^verbatim>\<open>maxExpiration.Sub\<close> of that
  expiration, which is zero when the two instants are equal and negative otherwise; it
  is \<open>(now + max) - expiration\<close> whenever a Duration can hold that difference. The
  witness has a lease of minus two hours and a lease of zero.
\<close>

theorem LeaseExtend_clamped_nonpositive:
  assumes "detectLease req = Some (p, lease)"
      and "Add now mx < Add now (IncrementedLease lease (LeaseIncrement lease))"
      and "Add now mx \<le> ExpirationTime lease"
  shows "\<exists>d req'. d = Sub (Add now mx) (ExpirationTime lease) \<and> d \<le> 0 \<and>
           (d = 0 \<longleftrightarrow> ExpirationTime lease = Add now mx) \<and>
           (fits (now + mx - ExpirationTime lease) \<longrightarrow> d = now + mx - ExpirationTime lease) \<and>
           req' = assign_Lease req p d \<and>
           LeaseExtend IncrementedLease ExpirationTime mx now req =
             (Inr \<lparr>Response_Auth = Auth req', Response_Secret = Secret req'\<rparr>, req') \<and>
           detectLease req' = Some (p, lease\<lparr>Lease := d\<rparr>)"
proof -
  let ?d = "Sub (Add now mx) (ExpirationTime lease)"
  have run: "LeaseExtend IncrementedLease ExpirationTime mx now req =
      (Inr \<lparr>Response_Auth = Auth (assign_Lease req p ?d),
            Response_Secret = Secret (assign_Lease req p ?d)\<rparr>, assign_Lease req p ?d)"
    using assms(1,2) by (simp add: LeaseExtend_def Let_def Sub_pos_iff)
  have ptr: "detectLease (assign_Lease req p ?d) = Some (p, lease\<lparr>Lease := ?d\<rparr>)"
    using assms(1) by (rule detectLease_assign)
  have sign: "?d \<le> 0" using assms(3) by (simp add: Sub_nonpos_iff)
  have zero: "?d = 0 \<longleftrightarrow> ExpirationTime lease = Add now mx"
    by (auto simp: Sub_zero_iff)
  have exact: "fits (now + mx - ExpirationTime lease) \<longrightarrow> ?d = now + mx - ExpirationTime lease"
    using Sub_exact [of "Add now mx" "ExpirationTime lease"] by (simp add: Add_def)
  from run ptr sign zero exact show ?thesis by blast
qed

theorem LeaseExtend_clamped_nonpositive_witness:
  "detectLease \<lparr>Auth = None,
                 Secret = Some \<lparr>Secret_LeaseOptions = \<lparr>Lease = Hour, LeaseIncrement = 7 * Hour\<rparr>\<rparr>\<rparr> =
     Some (InSecret, \<lparr>Lease = Hour, LeaseIncrement = 7 * Hour\<rparr>) \<and>
   Add (1000 * Hour) (3 * Hour) <
     Add (1000 * Hour)
       (spec_IncrementedLease (expires_at (1005 * Hour)) (1000 * Hour)
          \<lparr>Lease = Hour, LeaseIncrement = 7 * Hour\<rparr> (7 * Hour)) \<and>
   Add (1000 * Hour) (3 * Hour) \<le> expires_at (1005 * Hour) \<lparr>Lease = Hour, LeaseIncrement = 7 * Hour\<rparr> \<and>
   LeaseExtend (spec_IncrementedLease (expires_at (1005 * Hour)) (1000 * Hour))
       (expires_at (1005 * Hour)) (3 * Hour) (1000 * Hour)
       \<lparr>Auth = None,
        Secret = Some \<lparr>Secret_LeaseOptions = \<lparr>Lease = Hour, LeaseIncrement = 7 * Hour\<rparr>\<rparr>\<rparr> =
     (Inr \<lparr>Response_Auth = None,
           Response_Secret =
             Some \<lparr>Secret_LeaseOptions = \<lparr>Lease = - (2 * Hour), LeaseIncrement = 7 * Hour\<rparr>\<rparr>\<rparr>,
      \<lparr>Auth = None,
       Secret = Some \<lparr>Secret_LeaseOptions = \<lparr>Lease = - (2 * Hour), LeaseIncrement = 7 * Hour\<rparr>\<rparr>\<rparr>) \<and>
   LeaseExtend (spec_IncrementedLease (expires_at (1003 * Hour)) (1000 * Hour))
       (expires_at (1003 * Hour)) (3 * Hour) (1000 * Hour)
       \<lparr>Auth = None,
        Secret = Some \<lparr>Secret_LeaseOptions = \<lparr>Lease = Hour, LeaseIncrement = 7 * Hour\<rparr>\<rparr>\<rparr> =
     (Inr \<lparr>Response_Auth = None,
           Response_Secret =
             Some \<lparr>Secret_LeaseOptions = \<lparr>Lease = 0, LeaseIncrement = 7 * Hour\<rparr>\<rparr>\<rparr>,
      \<lparr>Auth = None,
       Secret = Some \<lparr>Secret_LeaseOptions = \<lparr>Lease = 0, LeaseIncrement = 7 * Hour\<rparr>\<rparr>\<rparr>)"
proof -
  let ?l = "\<lparr>Lease = Hour, LeaseIncrement = 7 * Hour\<rparr>"
  let ?req = "\<lparr>Auth = None, Secret = Some \<lparr>Secret_LeaseOptions = ?l\<rparr>\<rparr>"
  let ?inc5 = "spec_IncrementedLease (expires_at (1005 * Hour)) (1000 * Hour)"
  let ?inc3 = "spec_IncrementedLease (expires_at (1003 * Hour)) (1000 * Hour)"
  have ctx: "detectLease ?req = Some (InSecret, ?l)"
    by (simp add: detectLease_def)
  have over5: "Add (1000 * Hour) (3 * Hour) < Add (1000 * Hour) (?inc5 ?l (LeaseIncrement ?l))"
    by (simp add: Add_def Sub_def spec_IncrementedLease_def expires_at_def Hour_def
        minDuration_def maxDuration_def)
  have over3: "Add (1000 * Hour) (3 * Hour) < Add (1000 * Hour) (?inc3 ?l (LeaseIncrement ?l))"
    by (simp add: Add_def Sub_def spec_IncrementedLease_def expires_at_def Hour_def
        minDuration_def maxDuration_def)
  have past: "Add (1000 * Hour) (3 * Hour) \<le> expires_at (1005 * Hour) ?l"
    by (simp add: Add_def expires_at_def Hour_def)
  have at: "Add (1000 * Hour) (3 * Hour) \<le> expires_at (1003 * Hour) ?l"
    by (simp add: Add_def expires_at_def Hour_def)
  have d1: "Sub (Add (1000 * Hour) (3 * Hour)) (expires_at (1005 * Hour) ?l) = - (2 * Hour)"
    by (simp add: Sub_def Add_def expires_at_def Hour_def minDuration_def maxDuration_def)
  have d2: "Sub (Add (1000 * Hour) (3 * Hour)) (expires_at (1003 * Hour) ?l) = 0"
    by (simp add: Sub_def Add_def expires_at_def Hour_def minDuration_def maxDuration_def)
  note th1 = LeaseExtend_clamped_nonpositive [where req = "?req" and p = InSecret and lease = "?l"
      and now = "1000 * Hour" and mx = "3 * Hour" and IncrementedLease = "?inc5"
      and ExpirationTime = "expires_at (1005 * Hour)"]
  note th2 = LeaseExtend_clamped_nonpositive [where req = "?req" and p = InSecret and lease = "?l"
      and now = "1000 * Hour" and mx = "3 * Hour" and IncrementedLease = "?inc3"
      and ExpirationTime = "expires_at (1003 * Hour)"]
  from th1 [OF ctx over5 past] th2 [OF ctx over3 at] ctx over5 past show ?thesis
    by (simp add: d1 d2)
qed

section \<open>Properties of Put, Get and Delete\<close>

lemma stmt_get_Nil_iff: "stmt_get tbl k = [] \<longleftrightarrow> k \<notin> paths tbl"
  by (induction tbl) (auto simp: stmt_get_def paths_def)

lemma stmt_get_update:
  "stmt_get (map (\<lambda>(p, x). if p = k then (p, v) else (p, x)) tbl) k' =
     (if k' = k then map (\<lambda>x. v) (stmt_get tbl k) else stmt_get tbl k')"
  by (induction tbl) (auto simp: stmt_get_def)

lemma stmt_get_insert:
  "stmt_get (tbl @ [(k, v)]) k' = (if k' = k then stmt_get tbl k @ [v] else stmt_get tbl k')"
  by (simp add: stmt_get_def)

lemma stmt_get_delete:
  "stmt_get (stmt_delete tbl k) k' = (if k' = k then [] else stmt_get tbl k')"
  by (induction tbl) (auto simp: stmt_get_def stmt_delete_def)

lemma stmt_delete_absent: "k \<notin> paths tbl \<Longrightarrow> stmt_delete tbl k = tbl"
  by (induction tbl) (auto simp: stmt_delete_def paths_def)

lemma stmt_delete_twice: "stmt_delete (stmt_delete tbl k) k = stmt_delete tbl k"
  by (simp add: stmt_delete_def)

lemma Get_no_fault:
  "Get tbl None k =
     (case stmt_get tbl k of [] \<Rightarrow> Inr None | v # _ \<Rightarrow> Inr (Some \<lparr>Key = k, Value = v\<rparr>))"
  by (simp add: Get_def get_QueryRow_Scan_def split: list.splits)

lemma Get_fault: "Get tbl (Some err) k = (if err = ErrNoRows then Inr None else Inl err)"
  by (simp add: Get_def get_QueryRow_Scan_def)

lemma Put_no_fault:
  "Put tbl None \<lparr>Key = k, Value = v\<rparr> =
     Inr (if k \<in> paths tbl then map (\<lambda>(p, x). if p = k then (p, v) else (p, x)) tbl
          else tbl @ [(k, v)])"
  by (simp add: Put_def put_Exec_def stmt_put_def)

lemma Delete_no_fault: "Delete tbl None k = Inr (stmt_delete tbl k)"
  by (simp add: Delete_def delete_Exec_def)

lemma map_fst_update:
  "map fst (map (\<lambda>(p, x). if p = k then (p, v) else (p, x)) tbl) = map fst tbl"
  by (induction tbl) auto

lemma Put_entry_no_fault:
  "Put tbl None entry =
     Inr (if Key entry \<in> paths tbl
          then map (\<lambda>(p, x). if p = Key entry then (p, Value entry) else (p, x)) tbl
          else tbl @ [(Key entry, Value entry)])"
  by (simp add: Put_def put_Exec_def stmt_put_def)

lemma paths_map_fst: "paths tbl = set (map fst tbl)"
  by (simp add: paths_def)

lemma paths_Put:
  assumes "Put tbl None entry = Inr tbl'"
  shows "paths tbl' = insert (Key entry) (paths tbl)"
proof (cases "Key entry \<in> paths tbl")
  case True
  with assms have "tbl' = map (\<lambda>(p, x). if p = Key entry then (p, Value entry) else (p, x)) tbl"
    by (simp add: Put_entry_no_fault)
  then have "paths tbl' = paths tbl"
    by (simp only: paths_map_fst map_fst_update)
  with True show ?thesis by auto
next
  case False
  with assms have "tbl' = tbl @ [(Key entry, Value entry)]"
    by (simp add: Put_entry_no_fault)
  then show ?thesis by (simp add: paths_def)
qed

lemma paths_Delete: "paths (stmt_delete tbl k) = paths tbl - {k}"
  by (auto simp: stmt_delete_def paths_def)

lemma replay_paths: "\<exists>tbl'. replay tbl ops = Inr tbl' \<and> paths tbl' = stored (paths tbl) ops"
proof (induction ops arbitrary: tbl)
  case Nil
  show ?case by simp
next
  case (Cons a ops)
  show ?case
  proof (cases a)
    case (PutOp entry)
    obtain t where t: "Put tbl None entry = Inr t"
      by (simp add: Put_entry_no_fault)
    from Cons.IH [of t] paths_Put [OF t] PutOp t show ?thesis by simp
  next
    case (DeleteOp key)
    from Cons.IH [of "stmt_delete tbl key"] DeleteOp show ?thesis
      by (simp add: Delete_no_fault paths_Delete)
  qed
qed

text \<open>
  C3. A key with no row in the table: \<open>Get\<close> returns no entry and no error. Such is
  every key that a history of \<open>Put\<close> and \<open>Delete\<close> on a fresh table has never put, or
  has deleted since it was last put. A call that fails with any error but
  \<^verbatim>\<open>sql.ErrNoRows\<close> returns that error. The two outcomes are told apart: \<open>Get\<close> answers
  "no entry, no error" only when the key has no row (or the call itself reports
  \<^verbatim>\<open>sql.ErrNoRows\<close>), and answers an error only when the call has failed with it.
\<close>

theorem Get_absent_is_not_an_error:
  "(k \<notin> paths tbl \<longrightarrow> Get tbl None k = Inr None) \<and>
   (k \<notin> stored {} ops \<longrightarrow> (\<exists>tbl'. replay [] ops = Inr tbl' \<and> Get tbl' None k = Inr None)) \<and>
   (\<forall>err. err \<noteq> ErrNoRows \<longrightarrow> Get tbl (Some err) k = Inl err) \<and>
   (Get tbl fault k = Inr None \<longleftrightarrow> fault = Some ErrNoRows \<or> fault = None \<and> k \<notin> paths tbl) \<and>
   (\<forall>err. Get tbl fault k = Inl err \<longleftrightarrow> fault = Some err \<and> err \<noteq> ErrNoRows)"
proof -
  have a: "k \<notin> paths tbl \<longrightarrow> Get tbl None k = Inr None"
    by (simp add: Get_no_fault stmt_get_Nil_iff [symmetric])
  have b: "k \<notin> stored {} ops \<longrightarrow>
      (\<exists>tbl'. replay [] ops = Inr tbl' \<and> Get tbl' None k = Inr None)"
  proof
    assume k: "k \<notin> stored {} ops"
    from replay_paths [of "[]" ops] obtain tbl' where
      r: "replay [] ops = Inr tbl'" and p: "paths tbl' = stored {} ops"
      by (auto simp: paths_def)
    from k p have "stmt_get tbl' k = []" by (simp add: stmt_get_Nil_iff)
    then have "Get tbl' None k = Inr None" by (simp add: Get_no_fault)
    with r show "\<exists>tbl'. replay [] ops = Inr tbl' \<and> Get tbl' None k = Inr None" by blast
  qed
  have c: "\<forall>err. err \<noteq> ErrNoRows \<longrightarrow> Get tbl (Some err) k = Inl err"
    by (simp add: Get_fault)
  have d: "Get tbl fault k = Inr None \<longleftrightarrow> fault = Some ErrNoRows \<or> fault = None \<and> k \<notin> paths tbl"
    by (cases fault) (auto simp: Get_no_fault Get_fault stmt_get_Nil_iff [symmetric] split: list.splits)
  have e: "\<forall>err. Get tbl fault k = Inl err \<longleftrightarrow> fault = Some err \<and> err \<noteq> ErrNoRows"
    by (cases fault) (auto simp: Get_no_fault Get_fault split: list.splits)
  from a b c d e show ?thesis by blast
qed

theorem Get_absent_is_not_an_error_witness:
  "''b'' \<notin> paths [(''a'', [1])] \<and>
   Get [(''a'', [1])] None ''b'' = Inr None \<and>
   ''a'' \<notin> stored {} [PutOp \<lparr>Key = ''a'', Value = [1]\<rparr>, DeleteOp ''a''] \<and>
   replay [] [PutOp \<lparr>Key = ''a'', Value = [1]\<rparr>, DeleteOp ''a''] = Inr [] \<and>
   Get [] None ''a'' = Inr None \<and>
   Errorf ''connection reset'' \<noteq> ErrNoRows \<and>
   Get [(''a'', [1])] (Some (Errorf ''connection reset'')) ''b'' = Inl (Errorf ''connection reset'')"
  using Get_absent_is_not_an_error [where k = "''b''" and tbl = "[(''a'', [1])]" and fault = None]
    Get_absent_is_not_an_error [where k = "''a''" and tbl = "[]" and fault = None
      and ops = "[PutOp \<lparr>Key = ''a'', Value = [1]\<rparr>, DeleteOp ''a'']"]
  by (auto simp: paths_def Put_no_fault Delete_no_fault stmt_delete_def)

text \<open>
  C4. \<open>Put\<close> of key \<open>k\<close> and value \<open>v\<close> into any table, when the store runs the
  statement, returns no error, and \<open>Get\<close> of \<open>k\<close> on the table it leaves returns the
  entry with key \<open>k\<close> and value \<open>v\<close>. \<open>Put\<close> is an upsert: when \<open>k\<close> has a row the
  table keeps its paths, when it has none the row \<open>(k, v)\<close> is added; every other key
  reads as before, and paths stay unique.
\<close>

theorem Put_then_Get:
  "\<exists>tbl'. Put tbl None \<lparr>Key = k, Value = v\<rparr> = Inr tbl' \<and>
          Get tbl' None k = Inr (Some \<lparr>Key = k, Value = v\<rparr>) \<and>
          (k \<in> paths tbl \<longrightarrow> map fst tbl' = map fst tbl) \<and>
          (k \<notin> paths tbl \<longrightarrow> tbl' = tbl @ [(k, v)]) \<and>
          (\<forall>k'. k' \<noteq> k \<longrightarrow> Get tbl' None k' = Get tbl None k') \<and>
          (primary_key tbl \<longrightarrow> primary_key tbl')"
proof (cases "k \<in> paths tbl")
  case True
  let ?t = "map (\<lambda>(p, x). if p = k then (p, v) else (p, x)) tbl"
  have put: "Put tbl None \<lparr>Key = k, Value = v\<rparr> = Inr ?t"
    using True by (simp add: Put_no_fault)
  from True obtain x xs where "stmt_get tbl k = x # xs"
    using stmt_get_Nil_iff [of tbl k] by (cases "stmt_get tbl k") auto
  then have get: "Get ?t None k = Inr (Some \<lparr>Key = k, Value = v\<rparr>)"
    by (simp add: Get_no_fault stmt_get_update)
  have others: "\<forall>k'. k' \<noteq> k \<longrightarrow> Get ?t None k' = Get tbl None k'"
    by (simp add: Get_no_fault stmt_get_update)
  have pk: "primary_key tbl \<longrightarrow> primary_key ?t"
    unfolding primary_key_def map_fst_update by simp
  have keys: "map fst ?t = map fst tbl"
    by (rule map_fst_update)
  from put get keys others pk True show ?thesis by blast
next
  case False
  let ?t = "tbl @ [(k, v)]"
  have put: "Put tbl None \<lparr>Key = k, Value = v\<rparr> = Inr ?t"
    using False by (simp add: Put_no_fault)
  from False have "stmt_get tbl k = []" by (simp add: stmt_get_Nil_iff)
  then have get: "Get ?t None k = Inr (Some \<lparr>Key = k, Value = v\<rparr>)"
    by (simp add: Get_no_fault stmt_get_insert)
  have others: "\<forall>k'. k' \<noteq> k \<longrightarrow> Get ?t None k' = Get tbl None k'"
    by (simp add: Get_no_fault stmt_get_insert)
  have pk: "primary_key tbl \<longrightarrow> primary_key ?t"
    using False by (simp add: primary_key_def paths_def)
  from put get others pk False show ?thesis by blast
qed

theorem Put_then_Get_witness:
  "''a'' \<in> paths [(''a'', [1]), (''b'', [2])] \<and> primary_key [(''a'', [1]), (''b'', [2])] \<and>
   Put [(''a'', [1]), (''b'', [2])] None \<lparr>Key = ''a'', Value = [7, 8]\<rparr> =
     Inr [(''a'', [7, 8]), (''b'', [2])] \<and>
   Get [(''a'', [7, 8]), (''b'', [2])] None ''a'' = Inr (Some \<lparr>Key = ''a'', Value = [7, 8]\<rparr>) \<and>
   ''c'' \<notin> paths [(''a'', [1]), (''b'', [2])] \<and>
   Put [(''a'', [1]), (''b'', [2])] None \<lparr>Key = ''c'', Value = [7, 8]\<rparr> =
     Inr [(''a'', [1]), (''b'', [2]), (''c'', [7, 8])] \<and>
   Get [(''a'', [1]), (''b'', [2]), (''c'', [7, 8])] None ''c'' =
     Inr (Some \<lparr>Key = ''c'', Value = [7, 8]\<rparr>)"
  using Put_then_Get [where tbl = "[(''a'', [1]), (''b'', [2])]" and k = "''a''" and v = "[7, 8]"]
    Put_then_Get [where tbl = "[(''a'', [1]), (''b'', [2])]" and k = "''c''" and v = "[7, 8]"]
  by (auto simp: Put_no_fault paths_def primary_key_def)

text \<open>
  C5. \<open>Delete\<close> of a key, when the store runs the statement, returns no error whether
  or not the key has a row; \<open>Get\<close> of the key on the table it leaves returns no entry
  and no error. A second \<open>Delete\<close> returns no error and leaves that table as it is, a
  \<open>Delete\<close> of a key without a row leaves the table as it is, and every other key
  reads as before.
\<close>

theorem Delete_then_Get:
  "\<exists>tbl'. Delete tbl None k = Inr tbl' \<and>
          Get tbl' None k = Inr None \<and>
          Delete tbl' None k = Inr tbl' \<and>
          (k \<notin> paths tbl \<longrightarrow> tbl' = tbl) \<and>
          (\<forall>k'. k' \<noteq> k \<longrightarrow> Get tbl' None k' = Get tbl None k')"
  by (simp add: Delete_no_fault Get_no_fault stmt_get_delete stmt_delete_twice stmt_delete_absent)

theorem Delete_then_Get_witness:
  "Delete [(''a'', [1]), (''b'', [2])] None ''a'' = Inr [(''b'', [2])] \<and>
   Get [(''b'', [2])] None ''a'' = Inr None \<and>
   ''a'' \<notin> paths [(''b'', [2])] \<and>
   Delete [(''b'', [2])] None ''a'' = Inr [(''b'', [2])] \<and>
   ''b'' \<noteq> ''a'' \<and>
   Get [(''b'', [2])] None ''b'' = Get [(''a'', [1]), (''b'', [2])] None ''b''"
  using Delete_then_Get [where tbl = "[(''a'', [1]), (''b'', [2])]" and k = "''a''"]
    Delete_then_Get [where tbl = "[(''b'', [2])]" and k = "''a''"]
  by (auto simp: Delete_no_fault stmt_delete_def paths_def)

section \<open>Properties of List\<close>

text \<open>
  C2, at a prefix with the character \<^verbatim>\<open>_\<close>. The prefix reaches the store as a
  \<^verbatim>\<open>LIKE\<close> pattern, where \<^verbatim>\<open>_\<close> stands for any character: with the one stored key
  \<^verbatim>\<open>ab/c\<close>, which does not start with \<^verbatim>\<open>a_\<close>, \<open>List\<close> of \<^verbatim>\<open>a_\<close> returns
  \<^verbatim>\<open>ab/\<close>; with the stored keys \<^verbatim>\<open>a_ab\<close> and \<^verbatim>\<open>ab\<close> it returns \<^verbatim>\<open>ab\<close> twice.
\<close>

theorem List_prefix_is_a_pattern:
  "List [(''ab/c'', [1])] None scans_well ''a_'' = Inr [''ab/''] \<and>
   \<not> HasPrefix ''ab/c'' ''a_'' \<and>
   List [(''a_ab'', [1]), (''ab'', [2])] None scans_well ''a_'' = Inr [''ab'', ''ab'']"
  by (simp add: List_def list_Query_def stmt_list_def scans_well_def List_row_def Let_def
      TrimPrefix_def HasPrefix_def AppendIfMissing_def Strings_def)

text \<open>
  For a literal prefix the pattern selects the paths that start with it, and \<open>List\<close>
  returns the listing of the spec, sorted and without duplicates, whatever the order of
  the rows. This is what C2 claims of every prefix.
\<close>

lemma like_any: "like s ''%''"
  by (induction s) auto

lemma like_literal: "literal pre \<Longrightarrow> like s (pre @ ''%'') \<longleftrightarrow> HasPrefix s pre"
proof (induction pre arbitrary: s)
  case Nil
  then show ?case using like_any by (simp add: HasPrefix_def)
next
  case (Cons c pre)
  then have lit: "literal pre" and c: "c \<noteq> CHR ''%''" "c \<noteq> CHR ''_''"
    by (auto simp: literal_def)
  show ?case
  proof (cases s)
    case Nil
    with c show ?thesis by (simp add: HasPrefix_def)
  next
    case (Cons x s')
    with c Cons.IH [OF lit, of s'] show ?thesis
      by (auto simp: HasPrefix_def)
  qed
qed

lemma stmt_list_literal:
  "literal pre \<Longrightarrow> stmt_list tbl (pre @ ''%'') = filter (\<lambda>p. HasPrefix p pre) (map fst tbl)"
  by (induction tbl) (auto simp: stmt_list_def like_literal)

lemma rows_scan_well:
  "map (\<lambda>(i, p). case scans_well i of Some err \<Rightarrow> Inl err | None \<Rightarrow> Inr p) (enumerate n ps) =
   map Inr ps"
  by (induction ps arbitrary: n) (auto simp: scans_well_def)

lemma List_rows_fold:
  "List_rows pre (map Inr ps) keys = Inr (foldl (List_row pre) keys ps)"
  by (induction ps arbitrary: keys) auto

lemma Index_slash_absent: "Index s ''/'' = - 1 \<longleftrightarrow> CHR ''/'' \<notin> set s"
proof (induction s)
  case Nil
  show ?case by simp
next
  case (Cons c s)
  have "0 \<le> Index s ''/'' \<or> Index s ''/'' = - 1"
    by (induction s) (auto simp: Let_def)
  with Cons show ?case by (auto simp: HasPrefix_def Let_def)
qed

lemma Index_slash_present:
  "CHR ''/'' \<in> set s \<Longrightarrow> Index s ''/'' = int (length (takeWhile (\<lambda>c. c \<noteq> CHR ''/'') s))"
proof (induction s)
  case Nil
  then show ?case by simp
next
  case (Cons c s)
  show ?case
  proof (cases "c = CHR ''/''")
    case True
    then show ?thesis by (simp add: HasPrefix_def)
  next
    case False
    with Cons.prems have "CHR ''/'' \<in> set s" by simp
    from Cons.IH [OF this] False show ?thesis
      by (simp add: HasPrefix_def Let_def)
  qed
qed

lemma take_to_slash:
  assumes "CHR ''/'' \<in> set s"
  shows "take (Suc (length (takeWhile (\<lambda>c. c \<noteq> CHR ''/'') s))) s =
         takeWhile (\<lambda>c. c \<noteq> CHR ''/'') s @ ''/''"
  using assms by (induction s) auto

lemma List_row_literal:
  assumes "HasPrefix p pre"
  shows "List_row pre keys p =
     (if CHR ''/'' \<in> set (drop (length pre) p)
      then AppendIfMissing keys (collapse (drop (length pre) p))
      else keys @ [collapse (drop (length pre) p)])"
proof (cases "CHR ''/'' \<in> set (drop (length pre) p)")
  case True
  from Index_slash_present [OF True] Index_slash_absent [of "drop (length pre) p"] True assms
  show ?thesis
    by (simp add: List_row_def TrimPrefix_def Let_def collapse_def take_to_slash nat_add_distrib)
next
  case False
  with Index_slash_absent [of "drop (length pre) p"] assms show ?thesis
    by (simp add: List_row_def TrimPrefix_def Let_def collapse_def)
qed

lemma collapse_slash: "CHR ''/'' \<in> set r \<Longrightarrow> CHR ''/'' \<in> set (collapse r)"
  by (simp add: collapse_def)

lemma set_foldl_List_row:
  "\<forall>p \<in> set ps. HasPrefix p pre \<Longrightarrow>
   set (foldl (List_row pre) keys ps) = set keys \<union> (\<lambda>p. collapse (drop (length pre) p)) ` set ps"
  by (induction ps arbitrary: keys) (auto simp: List_row_literal AppendIfMissing_def)

lemma HasPrefix_split: "HasPrefix p pre \<Longrightarrow> p = pre @ drop (length pre) p"
  by (metis HasPrefix_def append_take_drop_id)

lemma distinct_foldl_List_row:
  assumes "\<forall>p \<in> set ps. HasPrefix p pre" and "distinct ps" and "distinct keys"
      and "\<forall>p \<in> set ps. CHR ''/'' \<notin> set (drop (length pre) p) \<longrightarrow> drop (length pre) p \<notin> set keys"
  shows "distinct (foldl (List_row pre) keys ps)"
  using assms
proof (induction ps arbitrary: keys)
  case Nil
  then show ?case by simp
next
  case (Cons p ps)
  let ?r = "drop (length pre) p"
  let ?keys = "List_row pre keys p"
  have pp: "HasPrefix p pre" using Cons.prems(1) by simp
  have d: "distinct ?keys"
    using Cons.prems(3,4) pp
    by (auto simp: List_row_literal AppendIfMissing_def collapse_def)
  have fresh: "\<forall>q \<in> set ps. CHR ''/'' \<notin> set (drop (length pre) q) \<longrightarrow>
      drop (length pre) q \<notin> set ?keys"
  proof (intro ballI impI)
    fix q assume q: "q \<in> set ps" and ns: "CHR ''/'' \<notin> set (drop (length pre) q)"
    have qp: "HasPrefix q pre" using Cons.prems(1) q by simp
    have "q \<noteq> p" using Cons.prems(2) q by auto
    with HasPrefix_split [OF qp] HasPrefix_split [OF pp]
    have ne: "drop (length pre) q \<noteq> ?r" by metis
    have old: "drop (length pre) q \<notin> set keys" using Cons.prems(4) q ns by simp
    show "drop (length pre) q \<notin> set ?keys"
    proof (cases "CHR ''/'' \<in> set ?r")
      case True
      then have "CHR ''/'' \<in> set (collapse ?r)" by (rule collapse_slash)
      with ns have "drop (length pre) q \<noteq> collapse ?r" by metis
      with old True pp show ?thesis
        by (simp add: List_row_literal AppendIfMissing_def)
    next
      case False
      with old ne pp show ?thesis
        by (simp add: List_row_literal collapse_def)
    qed
  qed
  from Cons.IH [of ?keys] Cons.prems(1,2) d fresh show ?case by simp
qed

theorem List_literal_prefix:
  assumes "primary_key tbl" and "literal pre"
  shows "List tbl None scans_well pre = Inr (sorted_list_of_set (listing tbl pre))"
proof -
  let ?ps = "filter (\<lambda>p. HasPrefix p pre) (map fst tbl)"
  let ?keys = "foldl (List_row pre) [] ?ps"
  have run: "List tbl None scans_well pre = Inr (sort ?keys)"
    using assms(2)
    by (simp add: List_def list_Query_def stmt_list_literal rows_scan_well List_rows_fold
        Strings_def)
  have dps: "distinct ?ps" using assms(1) by (simp add: primary_key_def)
  have "distinct ?keys"
    by (rule distinct_foldl_List_row) (use dps in auto)
  moreover have "set ?keys = listing tbl pre"
    by (subst set_foldl_List_row) (auto simp: listing_def paths_def)
  ultimately have "sort ?keys = sorted_list_of_set (listing tbl pre)"
    by (metis sorted_list_of_set_sort_remdups distinct_remdups_id)
  with run show ?thesis by simp
qed

text \<open>The example of C2, for the three keys in any order of the rows.\<close>

theorem List_example:
  assumes "primary_key tbl" and "paths tbl = {''a/b'', ''a/c'', ''a/d/e''}"
  shows "List tbl None scans_well ''a/'' = Inr [''b'', ''c'', ''d/'']"
proof -
  have lit: "literal ''a/''" by (simp add: literal_def)
  have "{p \<in> {''a/b'', ''a/c'', ''a/d/e''}. HasPrefix p ''a/''} = {''a/b'', ''a/c'', ''a/d/e''}"
    by (auto simp: HasPrefix_def)
  then have "listing tbl ''a/'' = {''b'', ''c'', ''d/''}"
    unfolding listing_def assms(2) by (simp add: collapse_def)
  moreover have "sorted_list_of_set {''b'', ''c'', ''d/''} = [''b'', ''c'', ''d/'']"
    by (simp add: insort_key.simps)
  ultimately show ?thesis using List_literal_prefix [OF assms(1) lit] by simp
qed

section \<open>Properties of NewMSSQLBackend\<close>

text \<open>Steps issued until one fails: none fails, or the first that fails ends the run.\<close>

lemma issue_append:
  "issue e (p @ q) calls =
     (case issue e p calls of
        (None, calls') \<Rightarrow> issue e q calls'
      | (Some err, calls') \<Rightarrow> (Some err, calls'))"
  by (induction p arbitrary: calls) (auto split: option.splits)

lemma issue_ok:
  "\<forall>x \<in> set p. call_error e (fst x) = None \<Longrightarrow> issue e p calls = (None, calls @ map fst p)"
  by (induction p arbitrary: calls) auto

lemma issue_fail:
  assumes "\<exists>x \<in> set p. call_error e (fst x) \<noteq> None"
  shows "\<exists>pre c msg post err.
           p = pre @ (c, msg) # post \<and> (\<forall>x \<in> set pre. call_error e (fst x) = None) \<and>
           call_error e c = Some err \<and>
           issue e p calls = (Some (Wrapf msg err), calls @ map fst pre @ [c])"
  using assms
proof (induction p arbitrary: calls)
  case Nil
  then show ?case by simp
next
  case (Cons x p)
  obtain c msg where x: "x = (c, msg)" by (cases x)
  show ?case
  proof (cases "call_error e c")
    case (Some err)
    have "x # p = [] @ (c, msg) # p" using x by simp
    moreover have "issue e (x # p) calls = (Some (Wrapf msg err), calls @ map fst [] @ [c])"
      using x Some by simp
    ultimately show ?thesis using Some by fastforce
  next
    case None
    with Cons.prems x have "\<exists>x \<in> set p. call_error e (fst x) \<noteq> None" by auto
    from Cons.IH [OF this, of "calls @ [c]"] obtain pre c' msg' post err where
      p: "p = pre @ (c', msg') # post" and
      ok: "\<forall>x \<in> set pre. call_error e (fst x) = None" and
      bad: "call_error e c' = Some err" and
      run: "issue e p (calls @ [c]) = (Some (Wrapf msg' err), (calls @ [c]) @ map fst pre @ [c'])"
      by blast
    have "x # p = ((c, msg) # pre) @ (c', msg') # post" using x p by simp
    moreover have "\<forall>x \<in> set ((c, msg) # pre). call_error e (fst x) = None"
      using ok None by simp
    moreover have "issue e (x # p) calls =
        (Some (Wrapf msg' err), calls @ map fst ((c, msg) # pre) @ [c'])"
      using x None run by simp
    ultimately show ?thesis using bad by blast
  qed
qed

text \<open>The first step that fails is the only place where the steps can be cut so.\<close>

lemma first_failure_unique:
  assumes "p = pre @ (c, msg) # post"
      and "\<forall>x \<in> set pre. call_error e (fst x) = None"
      and "call_error e c = Some err"
  shows "pre = takeWhile (\<lambda>x. call_error e (fst x) = None) p \<and>
         (c, msg) = hd (dropWhile (\<lambda>x. call_error e (fst x) = None) p)"
  using assms by (simp add: takeWhile_append2 dropWhile_append2)

text \<open>The three parts of the constructor issue their steps.\<close>

lemma ensure_schema_issue:
  "ensure_schema e database schema calls = issue e (schema_steps e database schema) calls"
  by (auto simp: ensure_schema_def schema_steps_def Let_def split: option.splits)

lemma bootstrap_issue:
  "bootstrap e database schema tab calls =
     issue e (bootstrap_steps e database schema tab) calls"
  by (auto simp: bootstrap_def bootstrap_steps_def Let_def ensure_schema_issue issue_append
      split: option.splits prod.splits)

lemma prepare_all_issue:
  "prepare_all e qs stmts calls =
     (case issue e (map prepare_step qs) calls of
        (None, calls') \<Rightarrow> (Inr (fold (\<lambda>(name, query) m. m(name \<mapsto> query)) qs stmts), calls')
      | (Some err, calls') \<Rightarrow> (Inl err, calls'))"
  by (induction qs arbitrary: stmts calls)
     (auto simp: prepare_def prepare_step_def split: option.splits prod.splits)

lemma dom_fold_update:
  "dom (fold (\<lambda>(name, query) m. m(name \<mapsto> query)) qs stmts) = dom stmts \<union> fst ` set qs"
  by (induction qs arbitrary: stmts) auto

lemma set_range_walk: "set (range_walk e qs) = set qs"
  by (simp add: range_walk_def)

lemma statement_names:
  "fst ` set (statement_texts t) = {''put'', ''get'', ''delete'', ''list''}"
  by (simp add: statement_texts_def)

lemma NewMSSQLBackend_issue:
  assumes "max_parallel e conf = Inr n"
  shows "\<exists>t. NewMSSQLBackend e conf =
           (case issue e (construction_steps e conf) [] of
              (Some err, calls) \<Rightarrow> (Inl err, calls)
            | (None, calls) \<Rightarrow>
                (Inr \<lparr>dbTable = t,
                      statements = fold (\<lambda>(name, query) m. m(name \<mapsto> query))
                                     (range_walk e (statement_texts t)) Map.empty,
                      permitPool = n\<rparr>, calls))"
proof -
  let ?conf = "inject_defaults (upgrade_keys conf)"
  let ?db = "index_conf ?conf ''database''"
  let ?sch = "index_conf ?conf ''schema''"
  let ?tab = "index_conf ?conf ''table''"
  let ?t = "?db @ ''.'' @ ?sch @ ''.'' @ ?tab"
  have steps: "construction_steps e conf =
      [(Open, ''failed to connect to mssql: {{err}}'')] @
      bootstrap_steps e ?db ?sch ?tab @ map prepare_step (range_walk e (statement_texts ?t))"
    by (simp add: construction_steps_def Let_def)
  have "NewMSSQLBackend e conf =
           (case issue e (construction_steps e conf) [] of
              (Some err, calls) \<Rightarrow> (Inl err, calls)
            | (None, calls) \<Rightarrow>
                (Inr \<lparr>dbTable = ?t,
                      statements = fold (\<lambda>(name, query) m. m(name \<mapsto> query))
                                     (range_walk e (statement_texts ?t)) Map.empty,
                      permitPool = n\<rparr>, calls))"
    unfolding steps issue_append
    using assms
    by (simp add: NewMSSQLBackend_def Let_def bootstrap_issue prepare_all_issue
        split: option.splits prod.splits)
  then show ?thesis by blast
qed

text \<open>Every statement of the map has its preparation among the steps.\<close>

lemma construction_steps_prepare:
  "\<exists>t. \<forall>nq \<in> set (statement_texts t). prepare_step nq \<in> set (construction_steps e conf)"
  by (auto simp: construction_steps_def Let_def set_range_walk)

text \<open>
  C8. The steps of a construction are opening the handle, creating the database,
  switching to it and probing for the schema and creating it when the probe finds no
  row (for a schema other than \<^verbatim>\<open>dbo\<close>), creating the table, and preparing each of the
  four statements. When the store fails one of these steps (for the probe: with an error
  other than "no rows"), the constructor returns an error and no backend: either
  \<^verbatim>\<open>max_parallel\<close> did not parse and no call was issued, or the error is the error of
  the first step that fails, wrapped with the message of that step, and the calls issued
  are the steps before it, which have succeeded, and then that step: nothing is tried
  after it and nothing is tried again. When the store fails none of the steps and
  \<^verbatim>\<open>max_parallel\<close> parses, the constructor has issued every step and returns a backend
  that holds the four statements.
\<close>

theorem NewMSSQLBackend_fails_fast:
  "((\<exists>x \<in> set (construction_steps e conf). call_error e (fst x) \<noteq> None) \<longrightarrow>
      (\<exists>perr. max_parallel e conf = Inl perr \<and> NewMSSQLBackend e conf = (Inl perr, [])) \<or>
      (\<exists>pre c msg post err.
          construction_steps e conf = pre @ (c, msg) # post \<and>
          (\<forall>x \<in> set pre. call_error e (fst x) = None) \<and> call_error e c = Some err \<and>
          NewMSSQLBackend e conf = (Inl (Wrapf msg err), map fst pre @ [c]))) \<and>
   ((\<forall>x \<in> set (construction_steps e conf). call_error e (fst x) = None) \<longrightarrow>
      (\<exists>perr. max_parallel e conf = Inl perr \<and> NewMSSQLBackend e conf = (Inl perr, [])) \<or>
      (\<exists>m. NewMSSQLBackend e conf = (Inr m, map fst (construction_steps e conf)) \<and>
           dom (statements m) = {''put'', ''get'', ''delete'', ''list''}))"
proof (cases "max_parallel e conf")
  case (Inl perr)
  then have "NewMSSQLBackend e conf = (Inl perr, [])"
    by (simp add: NewMSSQLBackend_def)
  with Inl show ?thesis by simp
next
  case (Inr n)
  from NewMSSQLBackend_issue [OF Inr] obtain t where
    run: "NewMSSQLBackend e conf =
           (case issue e (construction_steps e conf) [] of
              (Some err, calls) \<Rightarrow> (Inl err, calls)
            | (None, calls) \<Rightarrow>
                (Inr \<lparr>dbTable = t,
                      statements = fold (\<lambda>(name, query) m. m(name \<mapsto> query))
                                     (range_walk e (statement_texts t)) Map.empty,
                      permitPool = n\<rparr>, calls))"
    by blast
  have bad: "\<exists>pre c msg post err.
          construction_steps e conf = pre @ (c, msg) # post \<and>
          (\<forall>x \<in> set pre. call_error e (fst x) = None) \<and> call_error e c = Some err \<and>
          NewMSSQLBackend e conf = (Inl (Wrapf msg err), map fst pre @ [c])"
    if "\<exists>x \<in> set (construction_steps e conf). call_error e (fst x) \<noteq> None"
  proof -
    from issue_fail [OF that, of "[]"] obtain pre c msg post err where
      "construction_steps e conf = pre @ (c, msg) # post"
      "\<forall>x \<in> set pre. call_error e (fst x) = None"
      "call_error e c = Some err"
      "issue e (construction_steps e conf) [] = (Some (Wrapf msg err), [] @ map fst pre @ [c])"
      by blast
    moreover from this(4) run
    have "NewMSSQLBackend e conf = (Inl (Wrapf msg err), map fst pre @ [c])" by simp
    ultimately show ?thesis by (intro exI conjI)
  qed
  have good: "\<exists>m. NewMSSQLBackend e conf = (Inr m, map fst (construction_steps e conf)) \<and>
           dom (statements m) = {''put'', ''get'', ''delete'', ''list''}"
    if "\<forall>x \<in> set (construction_steps e conf). call_error e (fst x) = None"
  proof -
    let ?m = "\<lparr>dbTable = t,
               statements = fold (\<lambda>(name, query) m. m(name \<mapsto> query))
                              (range_walk e (statement_texts t)) Map.empty,
               permitPool = n\<rparr>"
    from issue_ok [OF that, of "[]"] run
    have "NewMSSQLBackend e conf = (Inr ?m, map fst (construction_steps e conf))" by simp
    moreover have "dom (statements ?m) = {''put'', ''get'', ''delete'', ''list''}"
      by (simp add: dom_fold_update set_range_walk statement_names)
    ultimately show ?thesis by (intro exI conjI)
  qed
  show ?thesis
  proof (intro conjI impI disjI2)
    assume "\<exists>x \<in> set (construction_steps e conf). call_error e (fst x) \<noteq> None"
    then show "\<exists>pre c msg post err.
          construction_steps e conf = pre @ (c, msg) # post \<and>
          (\<forall>x \<in> set pre. call_error e (fst x) = None) \<and> call_error e c = Some err \<and>
          NewMSSQLBackend e conf = (Inl (Wrapf msg err), map fst pre @ [c])"
      by (rule bad)
  next
    assume "\<forall>x \<in> set (construction_steps e conf). call_error e (fst x) = None"
    then show "\<exists>m. NewMSSQLBackend e conf = (Inr m, map fst (construction_steps e conf)) \<and>
           dom (statements m) = {''put'', ''get'', ''delete'', ''list''}"
      by (rule good)
  qed
qed

theorem NewMSSQLBackend_fails_fast_witness:
  "call_error env_denied (Exec ''CREATE SCHEMA kv'') = Some (Errorf ''permission denied'') \<and>
   (Exec ''CREATE SCHEMA kv'', ''failed to create mssql schema: {{err}}'') \<in>
     set (construction_steps env_denied [''schema'' \<mapsto> ''kv'']) \<and>
   NewMSSQLBackend env_denied [''schema'' \<mapsto> ''kv''] =
     (Inl (Wrapf ''failed to create mssql schema: {{err}}'' (Errorf ''permission denied'')),
      [Open,
       Exec (createDatabase ''Vault''),
       Exec ''USE Vault'',
       QueryRow (''SELECT 1 FROM sys.schemas WHERE name = '' @ sq @ ''kv'' @ sq),
       Exec ''CREATE SCHEMA kv'']) \<and>
   call_error env_denied (Prepare ''DELETE FROM Vault.dbo.Audit WHERE Path = ?'') =
     Some (Errorf ''connection reset'') \<and>
   prepare_step (''delete'', ''DELETE FROM Vault.dbo.Audit WHERE Path = ?'') \<in>
     set (construction_steps env_denied [''table'' \<mapsto> ''Audit'']) \<and>
   NewMSSQLBackend env_denied [''table'' \<mapsto> ''Audit''] =
     (Inl (Wrapf (''failed to prepare '' @ dq @ ''delete'' @ dq @ '': {{err}}'')
            (Errorf ''connection reset'')),
      [Open,
       Exec (createDatabase ''Vault''),
       Exec (createQuery ''Vault'' ''dbo'' ''Audit''),
       Prepare (''IF EXISTS(SELECT 1 FROM Vault.dbo.Audit WHERE Path = ?) '' @
                ''UPDATE Vault.dbo.Audit SET Value = ? WHERE Path = ? '' @
                ''ELSE INSERT INTO Vault.dbo.Audit VALUES(?, ?)''),
       Prepare ''SELECT Value FROM Vault.dbo.Audit WHERE Path = ?'',
       Prepare ''SELECT Path FROM Vault.dbo.Audit WHERE Path LIKE ?'',
       Prepare ''DELETE FROM Vault.dbo.Audit WHERE Path = ?'']) \<and>
   list_all (\<lambda>x. call_error env_denied (fst x) = None) (construction_steps env_denied Map.empty) \<and>
   (\<exists>m. NewMSSQLBackend env_denied Map.empty =
          (Inr m,
           [Open,
            Exec (createDatabase ''Vault''),
            Exec (createQuery ''Vault'' ''dbo'' ''Vault''),
            Prepare (''IF EXISTS(SELECT 1 FROM Vault.dbo.Vault WHERE Path = ?) '' @
                     ''UPDATE Vault.dbo.Vault SET Value = ? WHERE Path = ? '' @
                     ''ELSE INSERT INTO Vault.dbo.Vault VALUES(?, ?)''),
            Prepare ''SELECT Value FROM Vault.dbo.Vault WHERE Path = ?'',
            Prepare ''SELECT Path FROM Vault.dbo.Vault WHERE Path LIKE ?'',
            Prepare ''DELETE FROM Vault.dbo.Vault WHERE Path = ?'']) \<and>
        dom (statements m) = {''put'', ''get'', ''delete'', ''list''})"
proof -
  let ?e = env_denied
  let ?ok = "\<lambda>x. call_error ?e (fst x) = None"
  let ?c1 = "[''schema'' \<mapsto> ''kv'']"
  let ?c2 = "[''table'' \<mapsto> ''Audit'']"
  let ?c3 = "Map.empty :: string \<rightharpoonup> string"
  note conf_defs = index_conf_def inject_defaults_def upgrade_keys_def defaults_def backcomp_def
  note step_defs = construction_steps_def bootstrap_steps_def schema_steps_def prepare_step_def
    range_walk_def statement_texts_def createDatabase_def createQuery_def Let_def sq_def dq_def
  note env_defs = env_denied_def fails_on_def

  have par: "max_parallel ?e ?c1 = Inr 128" "max_parallel ?e ?c2 = Inr 128"
    "max_parallel ?e ?c3 = Inr 128"
    by (simp_all add: max_parallel_def env_denied_def)

  have steps1: "construction_steps ?e ?c1 =
      [(Open, ''failed to connect to mssql: {{err}}''),
       (Exec (createDatabase ''Vault''), ''failed to create mssql database: {{err}}''),
       (Exec ''USE Vault'', ''failed to switch mssql database: {{err}}''),
       (QueryRow (''SELECT 1 FROM sys.schemas WHERE name = '' @ sq @ ''kv'' @ sq),
        ''failed to check if mssql schema exists: {{err}}''),
       (Exec ''CREATE SCHEMA kv'', ''failed to create mssql schema: {{err}}''),
       (Exec (createQuery ''Vault'' ''kv'' ''Vault''), ''failed to create mssql table: {{err}}''),
       prepare_step (statement_texts ''Vault.kv.Vault'' ! 0),
       prepare_step (statement_texts ''Vault.kv.Vault'' ! 1),
       prepare_step (statement_texts ''Vault.kv.Vault'' ! 3),
       prepare_step (statement_texts ''Vault.kv.Vault'' ! 2)]"
    by (simp add: step_defs conf_defs env_defs)
  have steps2: "construction_steps ?e ?c2 =
      [(Open, ''failed to connect to mssql: {{err}}''),
       (Exec (createDatabase ''Vault''), ''failed to create mssql database: {{err}}''),
       (Exec (createQuery ''Vault'' ''dbo'' ''Audit''), ''failed to create mssql table: {{err}}''),
       prepare_step (statement_texts ''Vault.dbo.Audit'' ! 0),
       prepare_step (statement_texts ''Vault.dbo.Audit'' ! 1),
       prepare_step (statement_texts ''Vault.dbo.Audit'' ! 3),
       prepare_step (''delete'', ''DELETE FROM Vault.dbo.Audit WHERE Path = ?'')]"
    by (simp add: step_defs conf_defs env_defs)
  have steps3: "construction_steps ?e ?c3 =
      [(Open, ''failed to connect to mssql: {{err}}''),
       (Exec (createDatabase ''Vault''), ''failed to create mssql database: {{err}}''),
       (Exec (createQuery ''Vault'' ''dbo'' ''Vault''), ''failed to create mssql table: {{err}}''),
       prepare_step (statement_texts ''Vault.dbo.Vault'' ! 0),
       prepare_step (statement_texts ''Vault.dbo.Vault'' ! 1),
       prepare_step (statement_texts ''Vault.dbo.Vault'' ! 3),
       prepare_step (statement_texts ''Vault.dbo.Vault'' ! 2)]"
    by (simp add: step_defs conf_defs env_defs)

  have bad1: "call_error ?e (Exec ''CREATE SCHEMA kv'') = Some (Errorf ''permission denied'')"
    by (simp add: env_defs)
  have in1: "(Exec ''CREATE SCHEMA kv'', ''failed to create mssql schema: {{err}}'') \<in>
      set (construction_steps ?e ?c1)"
    unfolding steps1 by simp
  have tw1: "takeWhile ?ok (construction_steps ?e ?c1) =
      [(Open, ''failed to connect to mssql: {{err}}''),
       (Exec (createDatabase ''Vault''), ''failed to create mssql database: {{err}}''),
       (Exec ''USE Vault'', ''failed to switch mssql database: {{err}}''),
       (QueryRow (''SELECT 1 FROM sys.schemas WHERE name = '' @ sq @ ''kv'' @ sq),
        ''failed to check if mssql schema exists: {{err}}'')]"
    unfolding steps1 by (simp add: env_defs createDatabase_def sq_def)
  have dw1: "hd (dropWhile ?ok (construction_steps ?e ?c1)) =
      (Exec ''CREATE SCHEMA kv'', ''failed to create mssql schema: {{err}}'')"
    unfolding steps1 by (simp add: env_defs createDatabase_def sq_def)
  from in1 bad1 have ex1: "\<exists>x \<in> set (construction_steps ?e ?c1). call_error ?e (fst x) \<noteq> None"
    by (intro bexI [of _ "(Exec ''CREATE SCHEMA kv'', ''failed to create mssql schema: {{err}}'')"])
       simp_all
  note th1 = NewMSSQLBackend_fails_fast [of ?e ?c1]
  from mp [OF conjunct1 [OF th1] ex1] par(1) obtain pre1 c1 msg1 post1 err1 where
    cut1: "construction_steps ?e ?c1 = pre1 @ (c1, msg1) # post1" and
    ok1: "\<forall>x \<in> set pre1. call_error ?e (fst x) = None" and
    err1: "call_error ?e c1 = Some err1" and
    run1: "NewMSSQLBackend ?e ?c1 = (Inl (Wrapf msg1 err1), map fst pre1 @ [c1])"
    by auto
  from first_failure_unique [OF cut1 ok1 err1] tw1 dw1
  have "pre1 = [(Open, ''failed to connect to mssql: {{err}}''),
       (Exec (createDatabase ''Vault''), ''failed to create mssql database: {{err}}''),
       (Exec ''USE Vault'', ''failed to switch mssql database: {{err}}''),
       (QueryRow (''SELECT 1 FROM sys.schemas WHERE name = '' @ sq @ ''kv'' @ sq),
        ''failed to check if mssql schema exists: {{err}}'')]"
    and "c1 = Exec ''CREATE SCHEMA kv''" and "msg1 = ''failed to create mssql schema: {{err}}''"
    by simp_all
  with run1 err1 bad1
  have res1: "NewMSSQLBackend ?e ?c1 =
     (Inl (Wrapf ''failed to create mssql schema: {{err}}'' (Errorf ''permission denied'')),
      [Open,
       Exec (createDatabase ''Vault''),
       Exec ''USE Vault'',
       QueryRow (''SELECT 1 FROM sys.schemas WHERE name = '' @ sq @ ''kv'' @ sq),
       Exec ''CREATE SCHEMA kv''])"
    by simp

  have bad2: "call_error ?e (Prepare ''DELETE FROM Vault.dbo.Audit WHERE Path = ?'') =
      Some (Errorf ''connection reset'')"
    by (simp add: env_defs)
  have in2: "prepare_step (''delete'', ''DELETE FROM Vault.dbo.Audit WHERE Path = ?'') \<in>
      set (construction_steps ?e ?c2)"
    unfolding steps2 by simp
  have tw2: "takeWhile ?ok (construction_steps ?e ?c2) =
      [(Open, ''failed to connect to mssql: {{err}}''),
       (Exec (createDatabase ''Vault''), ''failed to create mssql database: {{err}}''),
       (Exec (createQuery ''Vault'' ''dbo'' ''Audit''), ''failed to create mssql table: {{err}}''),
       prepare_step (statement_texts ''Vault.dbo.Audit'' ! 0),
       prepare_step (statement_texts ''Vault.dbo.Audit'' ! 1),
       prepare_step (statement_texts ''Vault.dbo.Audit'' ! 3)]"
    unfolding steps2
    by (simp add: env_defs createDatabase_def createQuery_def sq_def prepare_step_def
        statement_texts_def)
  have dw2: "hd (dropWhile ?ok (construction_steps ?e ?c2)) =
      prepare_step (''delete'', ''DELETE FROM Vault.dbo.Audit WHERE Path = ?'')"
    unfolding steps2
    by (simp add: env_defs createDatabase_def createQuery_def sq_def prepare_step_def
        statement_texts_def)
  from in2 bad2 have ex2: "\<exists>x \<in> set (construction_steps ?e ?c2). call_error ?e (fst x) \<noteq> None"
    by (intro bexI [of _ "prepare_step (''delete'', ''DELETE FROM Vault.dbo.Audit WHERE Path = ?'')"])
       (simp_all add: prepare_step_def)
  note th2 = NewMSSQLBackend_fails_fast [of ?e ?c2]
  from mp [OF conjunct1 [OF th2] ex2] par(2) obtain pre2 c2 msg2 post2 err2 where
    cut2: "construction_steps ?e ?c2 = pre2 @ (c2, msg2) # post2" and
    ok2: "\<forall>x \<in> set pre2. call_error ?e (fst x) = None" and
    err2: "call_error ?e c2 = Some err2" and
    run2: "NewMSSQLBackend ?e ?c2 = (Inl (Wrapf msg2 err2), map fst pre2 @ [c2])"
    by auto
  from first_failure_unique [OF cut2 ok2 err2] tw2 dw2
  have "pre2 = [(Open, ''failed to connect to mssql: {{err}}''),
       (Exec (createDatabase ''Vault''), ''failed to create mssql database: {{err}}''),
       (Exec (createQuery ''Vault'' ''dbo'' ''Audit''), ''failed to create mssql table: {{err}}''),
       prepare_step (statement_texts ''Vault.dbo.Audit'' ! 0),
       prepare_step (statement_texts ''Vault.dbo.Audit'' ! 1),
       prepare_step (statement_texts ''Vault.dbo.Audit'' ! 3)]"
    and "(c2, msg2) = prepare_step (''delete'', ''DELETE FROM Vault.dbo.Audit WHERE Path = ?'')"
    by simp_all
  with run2 err2 bad2
  have res2: "NewMSSQLBackend ?e ?c2 =
     (Inl (Wrapf (''failed to prepare '' @ dq @ ''delete'' @ dq @ '': {{err}}'')
            (Errorf ''connection reset'')),
      [Open,
       Exec (createDatabase ''Vault''),
       Exec (createQuery ''Vault'' ''dbo'' ''Audit''),
       Prepare (''IF EXISTS(SELECT 1 FROM Vault.dbo.Audit WHERE Path = ?) '' @
                ''UPDATE Vault.dbo.Audit SET Value = ? WHERE Path = ? '' @
                ''ELSE INSERT INTO Vault.dbo.Audit VALUES(?, ?)''),
       Prepare ''SELECT Value FROM Vault.dbo.Audit WHERE Path = ?'',
       Prepare ''SELECT Path FROM Vault.dbo.Audit WHERE Path LIKE ?'',
       Prepare ''DELETE FROM Vault.dbo.Audit WHERE Path = ?''])"
    by (simp add: prepare_step_def statement_texts_def)

  have all3: "list_all ?ok (construction_steps ?e ?c3)"
    unfolding steps3
    by (simp add: env_defs createDatabase_def createQuery_def sq_def prepare_step_def
        statement_texts_def)
  then have ok3: "\<forall>x \<in> set (construction_steps ?e ?c3). call_error ?e (fst x) = None"
    by (simp add: list_all_iff)
  note th3 = NewMSSQLBackend_fails_fast [of ?e ?c3]
  from mp [OF conjunct2 [OF th3] ok3] par(3) obtain m where
    run3: "NewMSSQLBackend ?e ?c3 = (Inr m, map fst (construction_steps ?e ?c3))" and
    dom3: "dom (statements m) = {''put'', ''get'', ''delete'', ''list''}"
    by auto
  have calls3: "map fst (construction_steps ?e ?c3) =
           [Open,
            Exec (createDatabase ''Vault''),
            Exec (createQuery ''Vault'' ''dbo'' ''Vault''),
            Prepare (''IF EXISTS(SELECT 1 FROM Vault.dbo.Vault WHERE Path = ?) '' @
                     ''UPDATE Vault.dbo.Vault SET Value = ? WHERE Path = ? '' @
                     ''ELSE INSERT INTO Vault.dbo.Vault VALUES(?, ?)''),
            Prepare ''SELECT Value FROM Vault.dbo.Vault WHERE Path = ?'',
            Prepare ''SELECT Path FROM Vault.dbo.Vault WHERE Path LIKE ?'',
            Prepare ''DELETE FROM Vault.dbo.Vault WHERE Path = ?'']"
    unfolding steps3 by (simp add: prepare_step_def statement_texts_def)
  from run3 dom3 have res3: "\<exists>m. NewMSSQLBackend ?e ?c3 =
          (Inr m,
           [Open,
            Exec (createDatabase ''Vault''),
            Exec (createQuery ''Vault'' ''dbo'' ''Vault''),
            Prepare (''IF EXISTS(SELECT 1 FROM Vault.dbo.Vault WHERE Path = ?) '' @
                     ''UPDATE Vault.dbo.Vault SET Value = ? WHERE Path = ? '' @
                     ''ELSE INSERT INTO Vault.dbo.Vault VALUES(?, ?)''),
            Prepare ''SELECT Value FROM Vault.dbo.Vault WHERE Path = ?'',
            Prepare ''SELECT Path FROM Vault.dbo.Vault WHERE Path LIKE ?'',
            Prepare ''DELETE FROM Vault.dbo.Vault WHERE Path = ?'']) \<and>
        dom (statements m) = {''put'', ''get'', ''delete'', ''list''}"
    unfolding calls3 by (intro exI conjI)

  from bad1 in1 res1 bad2 in2 res2 all3 res3 show ?thesis
    by (intro conjI)
qed

section \<open>Properties of the permit pool\<close>

lemma filter_update:
  "i < length xs \<Longrightarrow>
   length (filter P (xs[i := y])) + (if P (xs ! i) then 1 else 0) =
   length (filter P xs) + (if P y then 1 else 0)"
proof (induction xs arbitrary: i)
  case Nil
  then show ?case by simp
next
  case (Cons x xs)
  show ?case
  proof (cases i)
    case 0
    then show ?thesis by simp
  next
    case (Suc j)
    with Cons.prems have "j < length xs" by simp
    from Cons.IH [OF this] Suc show ?thesis by simp
  qed
qed

lemma fire_balanced:
  assumes "balanced C N s" and "fire s ev = Some s'"
  shows "balanced C N s'"
proof (cases ev)
  case (Acquire i)
  with assms(2) have i: "i < length (callers s)" and w: "callers s ! i = Waiting"
    and a: "0 < pool s"
    and s': "s' = \<lparr>pool = pool s - 1, callers = (callers s)[i := Holding]\<rparr>"
    by (auto simp: PermitPool_Acquire_def split: if_splits)
  from filter_update [OF i, of holds Holding] w
  have "holders s' = holders s + 1" by (simp add: holders_def s')
  with assms(1) a show ?thesis by (simp add: balanced_def s')
next
  case (Statement i r)
  with assms(2) have i: "i < length (callers s)" and h: "callers s ! i = Holding"
    and s': "s' = \<lparr>pool = pool s, callers = (callers s)[i := Ran r]\<rparr>"
    by (auto split: if_splits)
  from filter_update [OF i, of holds "Ran r"] h
  have "holders s' = holders s" by (simp add: holders_def s')
  with assms(1) show ?thesis by (simp add: balanced_def s')
next
  case (Release i)
  with assms(2) obtain r where i: "i < length (callers s)" and h: "callers s ! i = Ran r"
    and s': "s' = \<lparr>pool = pool s + 1, callers = (callers s)[i := Finished r]\<rparr>"
    by (auto simp: PermitPool_Release_def split: if_splits pc.splits)
  from filter_update [OF i, of holds "Finished r"] h
  have "holders s' + 1 = holders s" by (simp add: holders_def s')
  with assms(1) show ?thesis by (auto simp: balanced_def s')
qed

lemma run_balanced:
  "balanced C N s \<Longrightarrow> run s sched = Some s' \<Longrightarrow> balanced C N s'"
proof (induction sched arbitrary: s)
  case Nil
  then show ?case by simp
next
  case (Cons ev sched)
  from Cons.prems(2) obtain s1 where f: "fire s ev = Some s1" and r: "run s1 sched = Some s'"
    by (auto split: option.splits)
  from Cons.IH [OF fire_balanced [OF Cons.prems(1) f] r] show ?case .
qed

lemma start_balanced: "balanced C N (start C N)"
  by (simp add: balanced_def start_def holders_def NewPermitPool_def)

lemma run_append:
  "run s (xs @ [ev]) = (case run s xs of None \<Rightarrow> None | Some s' \<Rightarrow> fire s' ev)"
  by (induction xs arbitrary: s) (auto split: option.splits)

lemma fire_ordered:
  assumes "ordered sched s" and "fire s ev = Some s'"
  shows "ordered (sched @ [ev]) s'"
proof -
  obtain i p where i: "i < length (callers s)" and ev: "caller ev = i"
    and c: "callers s' = (callers s)[i := p]"
    and h: "history i p = history i (callers s ! i) @ [ev]"
  proof (cases ev)
    case (Acquire i)
    with assms(2) have "i < length (callers s)" "callers s ! i = Waiting"
      "callers s' = (callers s)[i := Holding]"
      by (auto simp: PermitPool_Acquire_def split: if_splits)
    with Acquire that [of i Holding] show ?thesis by simp
  next
    case (Statement i r)
    with assms(2) have "i < length (callers s)" "callers s ! i = Holding"
      "callers s' = (callers s)[i := Ran r]"
      by (auto split: if_splits)
    with Statement that [of i "Ran r"] show ?thesis by simp
  next
    case (Release i)
    with assms(2) obtain r where "i < length (callers s)" "callers s ! i = Ran r"
      "callers s' = (callers s)[i := Finished r]"
      by (auto split: if_splits pc.splits)
    with Release that [of i "Finished r"] show ?thesis by simp
  qed
  show ?thesis
    unfolding ordered_def
  proof (intro allI impI)
    fix j assume "j < length (callers s')"
    with c have j: "j < length (callers s)" by simp
    with assms(1) have old: "filter (\<lambda>ev. caller ev = j) sched = history j (callers s ! j)"
      by (simp add: ordered_def)
    show "filter (\<lambda>ev. caller ev = j) (sched @ [ev]) = history j (callers s' ! j)"
      using old ev c i j h by (cases "j = i") auto
  qed
qed

lemma run_ordered: "run (start C N) sched = Some s \<Longrightarrow> ordered sched s"
proof (induction sched arbitrary: s rule: rev_induct)
  case Nil
  then show ?case by (auto simp: ordered_def start_def)
next
  case (snoc ev sched)
  from snoc.prems obtain s1 where r: "run (start C N) sched = Some s1" and f: "fire s1 ev = Some s"
    by (auto simp: run_append split: option.splits)
  from fire_ordered [OF snoc.IH [OF r] f] show ?case .
qed

text \<open>
  C9. \<open>N\<close> callers of the four operations on a pool of \<open>C\<close> permits, in every order in
  which their steps can happen and at every point of it: at most \<open>C\<close> callers hold a
  permit, and the permits held and the permits left add up to \<open>C\<close>. The steps of each
  caller are, in this order, its acquire, its statement and its release; and a caller
  whose statement has come back, with an error or without, can release at once, which
  leaves one holder fewer.
\<close>

theorem permits_bound:
  assumes "run (start C N) sched = Some s"
  shows "holders s \<le> C \<and> holders s + pool s = C \<and> length (callers s) = N \<and>
         (\<forall>i < N. filter (\<lambda>ev. caller ev = i) sched = history i (callers s ! i)) \<and>
         (\<forall>i < N. \<forall>r. callers s ! i = Ran r \<longrightarrow>
            (\<exists>s'. fire s (Release i) = Some s' \<and> callers s' ! i = Finished r \<and>
                  holders s' + 1 = holders s))"
proof -
  from run_balanced [OF start_balanced assms] have b: "balanced C N s" .
  from run_ordered [OF assms] have o: "ordered sched s" .
  have rel: "\<forall>i < N. \<forall>r. callers s ! i = Ran r \<longrightarrow>
            (\<exists>s'. fire s (Release i) = Some s' \<and> callers s' ! i = Finished r \<and>
                  holders s' + 1 = holders s)"
  proof (intro allI impI)
    fix i r assume i: "i < N" and h: "callers s ! i = Ran r"
    from b i have il: "i < length (callers s)" by (simp add: balanced_def)
    let ?s' = "\<lparr>pool = PermitPool_Release (pool s), callers = (callers s)[i := Finished r]\<rparr>"
    from il h have f: "fire s (Release i) = Some ?s'" by simp
    from filter_update [OF il, of holds "Finished r"] h
    have "holders ?s' + 1 = holders s" by (simp add: holders_def)
    with f il show "\<exists>s'. fire s (Release i) = Some s' \<and> callers s' ! i = Finished r \<and>
                  holders s' + 1 = holders s" by simp
  qed
  from b o rel show ?thesis by (auto simp: balanced_def ordered_def)
qed

theorem permits_bound_witness:
  "run (start 1 2) [Acquire 0, Statement 0 (Some (Errorf ''connection reset''))] =
     Some \<lparr>pool = 0, callers = [Ran (Some (Errorf ''connection reset'')), Waiting]\<rparr> \<and>
   holders \<lparr>pool = 0, callers = [Ran (Some (Errorf ''connection reset'')), Waiting]\<rparr> = 1 \<and>
   fire \<lparr>pool = 0, callers = [Ran (Some (Errorf ''connection reset'')), Waiting]\<rparr> (Acquire 1) = None \<and>
   fire \<lparr>pool = 0, callers = [Ran (Some (Errorf ''connection reset'')), Waiting]\<rparr> (Release 0) =
     Some \<lparr>pool = 1, callers = [Finished (Some (Errorf ''connection reset'')), Waiting]\<rparr> \<and>
   holders \<lparr>pool = 1, callers = [Finished (Some (Errorf ''connection reset'')), Waiting]\<rparr> = 0"
proof -
  let ?s = "\<lparr>pool = 0, callers = [Ran (Some (Errorf ''connection reset'')), Waiting]\<rparr>"
  have r: "run (start 1 2) [Acquire 0, Statement 0 (Some (Errorf ''connection reset''))] = Some ?s"
    by (simp add: start_def NewPermitPool_def PermitPool_Acquire_def numeral_2_eq_2)
  from permits_bound [OF r] have "holders ?s \<le> 1" "holders ?s + pool ?s = 1"
    by simp_all
  then have "holders ?s = 1" by simp
  with r show ?thesis
    by (simp add: holders_def PermitPool_Acquire_def PermitPool_Release_def)
qed

end
